theory Spec2Isabelle
  imports Complex_Main "HOL-Library.Log_Nat" "HOL-Library.Multiset"
begin

section \<open>PrimalityOracle: \<open>is_prime\<close>\<close>

text \<open>
  \<^verbatim>\<open>math.isqrt\<close> of the Python standard library: the floor of the exact square root of
  a non-negative integer. It raises \<^verbatim>\<open>ValueError\<close> on a negative argument; \<open>is_prime\<close>
  reaches the call only with \<open>num \<ge> 3\<close>, so that branch is not part of the model and
  the function is 0 there. The definition computes the root two bits at a time.
\<close>

function isqrt :: "int \<Rightarrow> int" where
  "isqrt n =
     (if n \<le> 0 then 0
      else let r = 2 * isqrt (n div 4)
           in if (r + 1) * (r + 1) \<le> n then r + 1 else r)"
  by pat_completeness auto
termination
  by (relation "measure nat") auto

declare isqrt.simps [simp del]

text \<open>
  The loop \<^verbatim>\<open>for i in range(3, limit + 1, 2): if num % i == 0: return False\<close>
  followed by \<^verbatim>\<open>return True\<close>, with the loop variable as an argument.
\<close>

function trial_loop :: "int \<Rightarrow> int \<Rightarrow> int \<Rightarrow> bool" where
  "trial_loop num limit i =
     (if limit + 1 \<le> i then True
      else if num mod i = 0 then False
      else trial_loop num limit (i + 2))"
  by pat_completeness auto
termination
  by (relation "measure (\<lambda>(num, limit, i). nat (limit + 1 - i))") auto

declare trial_loop.simps [simp del]

definition is_prime :: "int \<Rightarrow> bool" where
  "is_prime num =
     (if num < 2 then False
      else if num = 2 then True
      else if num mod 2 = 0 then False
      else let limit = isqrt num in trial_loop num limit 3)"

text \<open>The mathematical notion the oracle is compared with: an integer of at least 2
  with no divisor strictly between 1 and itself.\<close>

definition prime_spec :: "int \<Rightarrow> bool" where
  "prime_spec n \<longleftrightarrow> 2 \<le> n \<and> (\<forall>d. 1 < d \<and> d < n \<longrightarrow> \<not> d dvd n)"

section \<open>Aggregator\<close>

text \<open>The message a worker puts on the queue: \<^verbatim>\<open>{'id': .., 'count': .., 'highest': ..}\<close>.\<close>

record report =
  report_id :: int
  report_count :: int
  report_highest :: int

text \<open>The \<^verbatim>\<open>stats\<close> dictionary of \<^verbatim>\<open>main\<close>.\<close>

record stats =
  total :: int
  speed :: int
  highest :: int
  threads :: int
  running :: bool

text \<open>One pass of the body of \<^verbatim>\<open>while not queue.empty()\<close>: fold one report into the stats.\<close>

definition absorb :: "stats \<Rightarrow> report \<Rightarrow> stats" where
  "absorb st data =
     (let st1 = st\<lparr>total := total st + report_count data\<rparr>
      in if report_highest data > highest st1
         then st1\<lparr>highest := report_highest data\<rparr>
         else st1)"

text \<open>The whole drain loop, over the reports the queue hands out, in that order.\<close>

definition drain :: "stats \<Rightarrow> report list \<Rightarrow> stats" where
  "drain st queue = foldl absorb st queue"

text \<open>
  Double-precision subtraction. The readings of \<^verbatim>\<open>time.time()\<close> are doubles, and
  \<^verbatim>\<open>now - last_check_time\<close> is the exact difference rounded to the nearest double, ties
  to even. Doubles are modelled by the rationals they denote.

  \<^item> \<open>binexp x\<close> is the binary exponent of a positive rational: the \<open>e\<close> with
    \<open>2 ^ e \<le> x < 2 ^ (e + 1)\<close>. The difference of the bit lengths of numerator and
    denominator is that exponent or one more.
  \<^item> \<open>round_half_even\<close> rounds a rational to the nearest integer, ties to even.
  \<^item> \<open>round_double\<close> rounds to 53 significant bits, with the spacing of the
    subnormal range below \<open>2 ^ -1022\<close>. A result of magnitude \<open>2 ^ 1024\<close> or more
    stands for an infinity; it compares with finite numbers as the infinity does.
\<close>

definition binexp :: "rat \<Rightarrow> int" where
  "binexp x =
     (let (p, q) = quotient_of x;
          e = bitlen p - bitlen q
      in if power_int 2 e \<le> x then e else e - 1)"

definition round_half_even :: "rat \<Rightarrow> int" where
  "round_half_even x =
     (let f = \<lfloor>x\<rfloor>;
          d = x - of_int f
      in if d < 1 / 2 then f
         else if 1 / 2 < d then f + 1
         else if even f then f else f + 1)"

definition round_double :: "rat \<Rightarrow> rat" where
  "round_double x =
     (if x = 0 then 0
      else let e = max (binexp \<bar>x\<bar>) (- 1022);
               u = power_int 2 (e - 52)
           in sgn x * of_int (round_half_even (\<bar>x\<bar> / u)) * u)"

definition float_sub :: "rat \<Rightarrow> rat \<Rightarrow> rat" where
  "float_sub a b = round_double (a - b)"

text \<open>
  The state of the display loop of \<^verbatim>\<open>main\<close>: the stats and the two locals of the
  velocity computation. The clock readings are doubles, held as rationals.
\<close>

record aggregator =
  agg_stats :: stats
  last_check_time :: rat
  last_total_primes :: int

definition initial_stats :: "int \<Rightarrow> stats" where
  "initial_stats core_count =
     \<lparr>total = 0, speed = 0, highest = 0, threads = core_count, running = True\<rparr>"

definition initial_aggregator :: "int \<Rightarrow> rat \<Rightarrow> aggregator" where
  "initial_aggregator core_count t0 =
     \<lparr>agg_stats = initial_stats core_count, last_check_time = t0, last_total_primes = 0\<rparr>"

text \<open>Lines 166 to 170: the velocity update, given the reading \<open>now\<close> of the clock.\<close>

definition update_velocity :: "aggregator \<Rightarrow> rat \<Rightarrow> aggregator" where
  "update_velocity ag now =
     (if float_sub now (last_check_time ag) \<ge> 1
      then ag\<lparr>agg_stats := (agg_stats ag)\<lparr>speed := total (agg_stats ag) - last_total_primes ag\<rparr>,
              last_total_primes := total (agg_stats ag),
              last_check_time := now\<rparr>
      else ag)"

text \<open>One iteration of \<^verbatim>\<open>while True\<close>: drain the queue, then update the velocity.\<close>

definition tick :: "aggregator \<Rightarrow> report list \<Rightarrow> rat \<Rightarrow> aggregator" where
  "tick ag queue now = update_velocity (ag\<lparr>agg_stats := drain (agg_stats ag) queue\<rparr>) now"

section \<open>SequenceGenerator: the growth term\<close>

datatype error = OverflowError

text \<open>
  The worker computes \<^verbatim>\<open>math.floor(current_num * 0.00000005)\<close>. The literal is a
  double, so Python converts the integer to a double, multiplies two doubles and
  takes the floor of the product. Each of the three steps is modelled exactly, on
  integers:

  \<^item> A double has 53 significant bits. \<open>round53\<close> rounds a non-negative integer to 53
    significant bits, to nearest and ties to even, which is how both the conversion
    and the multiplication round. \<open>round53s\<close> extends it to negative integers by
    symmetry.
  \<^item> The conversion \<^verbatim>\<open>float(n)\<close> raises \<^verbatim>\<open>OverflowError\<close> when the rounded value does
    not fit a double, that is when it reaches \<open>2 ^ 1024\<close>.
  \<^item> The double nearest to 0.00000005 is \<open>7555786372591432 / 2 ^ 77\<close>. The product
    of an integer-valued double \<open>a\<close> and this factor is the exact product rounded to
    53 bits; scaling by a power of two commutes with that rounding (the product
    is far from the underflow and overflow thresholds), so the product is
    \<open>round53s (a * 7555786372591432) / 2 ^ 77\<close>.
  \<^item> \<^verbatim>\<open>math.floor\<close> of that quotient is the floor division by \<open>2 ^ 77\<close>.
\<close>

definition round53 :: "int \<Rightarrow> int" where
  "round53 x =
     (if x < 2 ^ 53 then x
      else let s = nat (bitlen x - 53);
               q = x div 2 ^ s;
               r = x mod 2 ^ s;
               half = 2 ^ (s - 1)
           in (if r > half \<or> (r = half \<and> odd q) then q + 1 else q) * 2 ^ s)"

definition round53s :: "int \<Rightarrow> int" where
  "round53s x = (if x < 0 then - round53 (- x) else round53 x)"

definition float_of_int :: "int \<Rightarrow> error + int" where
  "float_of_int n =
     (let a = round53s n in if \<bar>a\<bar> \<ge> 2 ^ 1024 then Inl OverflowError else Inr a)"

definition factor_mantissa :: int where
  "factor_mantissa = 7555786372591432"

definition growth :: "int \<Rightarrow> error + int" where
  "growth current_num =
     (case float_of_int current_num of
        Inl e \<Rightarrow> Inl e
      | Inr a \<Rightarrow> Inr (round53s (a * factor_mantissa) div 2 ^ 77))"

text \<open>Line 48: \<^verbatim>\<open>current_num += (stride + growth)\<close>.\<close>

definition advance :: "int \<Rightarrow> int \<Rightarrow> error + int" where
  "advance stride current_num =
     (case growth current_num of
        Inl e \<Rightarrow> Inl e
      | Inr g \<Rightarrow> Inr (current_num + (stride + g)))"

text \<open>The candidate a worker tests in its \<open>n\<close>-th iteration, counted from 0 over all
  its slices, when its cursor starts at \<open>start\<close>.\<close>

fun candidate :: "int \<Rightarrow> int \<Rightarrow> nat \<Rightarrow> error + int" where
  "candidate stride start 0 = Inr start"
| "candidate stride start (Suc n) =
     (case candidate stride start n of
        Inl e \<Rightarrow> Inl e
      | Inr c \<Rightarrow> advance stride c)"

section \<open>WorkerLoop\<close>

text \<open>
  The inner loop \<^verbatim>\<open>while (time.time() - start_time) < 0.2\<close> on the state
  \<open>(current_num, cnt, max_found)\<close> (\<open>cnt\<close> is the source's \<^verbatim>\<open>count\<close>). The wall clock decides only how many times the
  body runs; that number is the argument \<open>k\<close>.
\<close>

fun slice_loop :: "int \<Rightarrow> nat \<Rightarrow> int \<times> int \<times> int \<Rightarrow> error + int \<times> int \<times> int" where
  "slice_loop stride 0 s = Inr s"
| "slice_loop stride (Suc k) (current_num, cnt, max_found) =
     (let (cnt1, max_found1) =
            (if is_prime current_num then (cnt + 1, current_num) else (cnt, max_found))
      in case growth current_num of
           Inl e \<Rightarrow> Inl e
         | Inr g \<Rightarrow> slice_loop stride k (current_num + (stride + g), cnt1, max_found1))"

text \<open>The candidates \<open>is_prime\<close> is called on in a slice of \<open>k\<close> iterations.\<close>

fun tested :: "int \<Rightarrow> nat \<Rightarrow> int \<Rightarrow> int list" where
  "tested stride 0 current_num = []"
| "tested stride (Suc k) current_num =
     current_num # (case advance stride current_num of
                      Inl e \<Rightarrow> []
                    | Inr c \<Rightarrow> tested stride k c)"

text \<open>
  One pass of the body of \<^verbatim>\<open>while not stop_event.is_set()\<close>: a slice of \<open>k\<close>
  iterations from the cursor \<open>current_num\<close>, then the report, if one is put on the
  queue. The result is the cursor after the slice and the report.
\<close>

definition time_slice :: "int \<Rightarrow> int \<Rightarrow> nat \<Rightarrow> int \<Rightarrow> error + int \<times> report option" where
  "time_slice worker_id stride k current_num =
     (case slice_loop stride k (current_num, 0, 0) of
        Inl e \<Rightarrow> Inl e
      | Inr (current_num1, cnt, max_found) \<Rightarrow>
          Inr (current_num1,
               if cnt > 0 \<or> max_found > 0
               then Some \<lparr>report_id = worker_id, report_count = cnt, report_highest = max_found\<rparr>
               else None))"

text \<open>
  How a run of \<^verbatim>\<open>worker_process\<close> ends: the loop condition saw the stop event set, an
  exception ended the process, or (in the model only) the observations the run was
  given are used up and the worker is still in its loop, with the cursor shown.
\<close>

datatype outcome = Exited | Crashed error | Running int

text \<open>
  The loop \<^verbatim>\<open>while not stop_event.is_set()\<close>. The worker's environment is a list with one
  entry per evaluation of the loop condition: what \<^verbatim>\<open>stop_event.is_set()\<close> returned and,
  when the body runs, the number of iterations the clock gives the slice. The result
  is the list of reports put on the queue, in order, and the outcome.
\<close>

fun worker_loop :: "int \<Rightarrow> int \<Rightarrow> int \<Rightarrow> (bool \<times> nat) list \<Rightarrow> report list \<times> outcome" where
  "worker_loop worker_id stride current_num [] = ([], Running current_num)"
| "worker_loop worker_id stride current_num ((is_set, k) # env) =
     (if is_set then ([], Exited)
      else case time_slice worker_id stride k current_num of
             Inl e \<Rightarrow> ([], Crashed e)
           | Inr (current_num1, rep) \<Rightarrow>
               (let (sent, out) = worker_loop worker_id stride current_num1 env
                in ((case rep of None \<Rightarrow> [] | Some r \<Rightarrow> [r]) @ sent, out)))"

definition worker_process :: "int \<Rightarrow> int \<Rightarrow> (bool \<times> nat) list \<Rightarrow> report list \<times> outcome" where
  "worker_process worker_id stride env = worker_loop worker_id stride (100 + worker_id) env"

section \<open>Properties\<close>

subsection \<open>The primality test and the fold of the aggregator\<close>

lemma isqrt_nonneg: "0 \<le> isqrt n"
  by (induction n rule: isqrt.induct) (subst isqrt.simps, auto simp: Let_def)

lemma isqrt_bounds:
  "0 \<le> n \<Longrightarrow> isqrt n * isqrt n \<le> n \<and> n < (isqrt n + 1) * (isqrt n + 1)"
proof (induction n rule: isqrt.induct)
  case (1 n)
  show ?case
  proof (cases "n \<le> 0")
    case True
    with "1.prems" have "n = 0" by simp
    then show ?thesis by (simp add: isqrt.simps)
  next
    case False
    define m where "m = n div 4"
    define a where "a = isqrt m"
    have m0: "0 \<le> m" using False by (simp add: m_def)
    have ih: "a * a \<le> m \<and> m < (a + 1) * (a + 1)"
      using "1.IH" [OF False] m0 by (simp add: m_def a_def)
    have a0: "0 \<le> a" by (simp add: a_def isqrt_nonneg)
    have nm: "4 * m \<le> n" "n < 4 * m + 4" by (simp_all add: m_def)
    have lo: "(2 * a) * (2 * a) \<le> n"
    proof -
      have "(2 * a) * (2 * a) = 4 * (a * a)" by simp
      also have "\<dots> \<le> 4 * m" using ih by simp
      finally show ?thesis using nm by simp
    qed
    have hi: "n < (2 * a + 2) * (2 * a + 2)"
    proof -
      have "m + 1 \<le> (a + 1) * (a + 1)" using ih by simp
      then have "4 * m + 4 \<le> 4 * ((a + 1) * (a + 1))" by simp
      also have "\<dots> = (2 * a + 2) * (2 * a + 2)" by (simp add: algebra_simps)
      finally show ?thesis using nm by simp
    qed
    have eq: "isqrt n = (if (2 * a + 1) * (2 * a + 1) \<le> n then 2 * a + 1 else 2 * a)"
      using False by (subst isqrt.simps) (simp add: Let_def m_def a_def)
    show ?thesis
    proof (cases "(2 * a + 1) * (2 * a + 1) \<le> n")
      case True
      then show ?thesis using eq hi by (simp add: algebra_simps)
    next
      case False
      then show ?thesis using eq lo by (simp add: algebra_simps)
    qed
  qed
qed

lemma trial_loop_iff:
  "trial_loop num limit i \<longleftrightarrow> (\<forall>k::nat. i + 2 * int k \<le> limit \<longrightarrow> num mod (i + 2 * int k) \<noteq> 0)"
proof (induction num limit i rule: trial_loop.induct)
  case (1 num limit i)
  show ?case
  proof (cases "limit + 1 \<le> i")
    case True
    then show ?thesis by (subst trial_loop.simps) auto
  next
    case False
    show ?thesis
    proof (cases "num mod i = 0")
      case True
      have "\<exists>k::nat. i + 2 * int k \<le> limit \<and> num mod (i + 2 * int k) = 0"
        using False True by (intro exI [of _ 0]) simp
      then have "\<not> (\<forall>k::nat. i + 2 * int k \<le> limit \<longrightarrow> num mod (i + 2 * int k) \<noteq> 0)"
        by simp
      then show ?thesis using False True by (subst trial_loop.simps) simp
    next
      case nz: False
      have step: "trial_loop num limit i = trial_loop num limit (i + 2)"
        using False nz by (subst trial_loop.simps) simp
      have "(\<forall>k::nat. i + 2 * int k \<le> limit \<longrightarrow> num mod (i + 2 * int k) \<noteq> 0)
            \<longleftrightarrow> (\<forall>k::nat. i + 2 + 2 * int k \<le> limit \<longrightarrow> num mod (i + 2 + 2 * int k) \<noteq> 0)"
      proof
        assume h: "\<forall>k::nat. i + 2 * int k \<le> limit \<longrightarrow> num mod (i + 2 * int k) \<noteq> 0"
        show "\<forall>k::nat. i + 2 + 2 * int k \<le> limit \<longrightarrow> num mod (i + 2 + 2 * int k) \<noteq> 0"
        proof (intro allI impI)
          fix k :: nat assume "i + 2 + 2 * int k \<le> limit"
          then show "num mod (i + 2 + 2 * int k) \<noteq> 0"
            using h [rule_format, of "Suc k"] by (simp add: algebra_simps)
        qed
      next
        assume h: "\<forall>k::nat. i + 2 + 2 * int k \<le> limit \<longrightarrow> num mod (i + 2 + 2 * int k) \<noteq> 0"
        show "\<forall>k::nat. i + 2 * int k \<le> limit \<longrightarrow> num mod (i + 2 * int k) \<noteq> 0"
        proof (intro allI impI)
          fix k :: nat assume le: "i + 2 * int k \<le> limit"
          show "num mod (i + 2 * int k) \<noteq> 0"
          proof (cases k)
            case 0
            then show ?thesis using nz by simp
          next
            case (Suc j)
            then show ?thesis using h [rule_format, of j] le by (simp add: algebra_simps)
          qed
        qed
      qed
      then show ?thesis using step "1.IH" [OF False nz] by simp
    qed
  qed
qed

lemma trial_loop_odd:
  "trial_loop num limit 3 \<longleftrightarrow> (\<forall>j. 3 \<le> j \<and> j \<le> limit \<and> odd j \<longrightarrow> \<not> j dvd num)"
proof -
  have "(\<forall>k::nat. 3 + 2 * int k \<le> limit \<longrightarrow> num mod (3 + 2 * int k) \<noteq> 0)
        \<longleftrightarrow> (\<forall>j. 3 \<le> j \<and> j \<le> limit \<and> odd j \<longrightarrow> \<not> j dvd num)"
  proof
    assume h: "\<forall>k::nat. 3 + 2 * int k \<le> limit \<longrightarrow> num mod (3 + 2 * int k) \<noteq> 0"
    show "\<forall>j. 3 \<le> j \<and> j \<le> limit \<and> odd j \<longrightarrow> \<not> j dvd num"
    proof (intro allI impI)
      fix j :: int assume j: "3 \<le> j \<and> j \<le> limit \<and> odd j"
      define k where "k = nat ((j - 3) div 2)"
      have "even (j - 3)" using j by simp
      then have "j = 3 + 2 * int k" using j by (auto simp: k_def elim: evenE)
      then show "\<not> j dvd num" using h [rule_format, of k] j by (simp add: dvd_eq_mod_eq_0)
    qed
  next
    assume h: "\<forall>j. 3 \<le> j \<and> j \<le> limit \<and> odd j \<longrightarrow> \<not> j dvd num"
    show "\<forall>k::nat. 3 + 2 * int k \<le> limit \<longrightarrow> num mod (3 + 2 * int k) \<noteq> 0"
    proof (intro allI impI)
      fix k :: nat assume "3 + 2 * int k \<le> limit"
      then show "num mod (3 + 2 * int k) \<noteq> 0"
        using h [rule_format, of "3 + 2 * int k"] by (simp add: dvd_eq_mod_eq_0)
    qed
  qed
  then show ?thesis by (simp add: trial_loop_iff)
qed

text \<open>An odd number of at least 3 is prime exactly when no odd number from 3 to its
  integer square root divides it.\<close>

lemma odd_prime_iff:
  assumes n: "3 \<le> n" "odd n"
  shows "prime_spec n \<longleftrightarrow> (\<forall>j. 3 \<le> j \<and> j \<le> isqrt n \<and> odd j \<longrightarrow> \<not> j dvd n)"
proof
  assume p: "prime_spec n"
  show "\<forall>j. 3 \<le> j \<and> j \<le> isqrt n \<and> odd j \<longrightarrow> \<not> j dvd n"
  proof (intro allI impI)
    fix j assume j: "3 \<le> j \<and> j \<le> isqrt n \<and> odd j"
    have "isqrt n * isqrt n \<le> n" using isqrt_bounds [of n] n by simp
    moreover have "j * j \<le> isqrt n * isqrt n" using j by (intro mult_mono) auto
    moreover have "j < j * j" using j by (simp add: less_1_mult) 
    ultimately have "j < n" by linarith
    then show "\<not> j dvd n" using p j by (simp add: prime_spec_def)
  qed
next
  assume h: "\<forall>j. 3 \<le> j \<and> j \<le> isqrt n \<and> odd j \<longrightarrow> \<not> j dvd n"
  show "prime_spec n"
    unfolding prime_spec_def
  proof (intro conjI allI impI)
    show "2 \<le> n" using n by simp
  next
    fix d assume d: "1 < d \<and> d < n"
    show "\<not> d dvd n"
    proof
      assume "d dvd n"
      then obtain e where e: "n = d * e" by (auto elim: dvdE)
      have e1: "1 < e"
      proof (rule ccontr)
        assume "\<not> 1 < e"
        then have "e \<le> 1" by simp
        then have "d * e \<le> d * 1" using d by (intro mult_left_mono) auto
        then have "n \<le> d" using e by simp
        then show False using d by simp
      qed
      define a where "a = min d e"
      have a: "1 < a" "a dvd n" "a * a \<le> n"
      proof -
        show "1 < a" using d e1 by (simp add: a_def)
        show "a dvd n" using e by (auto simp: a_def min_def)
        have "a * a \<le> d * e" using d e1 by (intro mult_mono) (auto simp: a_def)
        then show "a * a \<le> n" using e by simp
      qed
      have "odd a" using a(2) n(2) by (auto elim: dvdE)
      then have a3: "3 \<le> a" using a(1) by presburger
      have "a \<le> isqrt n"
      proof (rule ccontr)
        assume "\<not> a \<le> isqrt n"
        then have "isqrt n + 1 \<le> a" by simp
        then have "(isqrt n + 1) * (isqrt n + 1) \<le> a * a"
          using isqrt_nonneg [of n] by (intro mult_mono) auto
        then show False using isqrt_bounds [of n] n a(3) by simp
      qed
      then show False using h a3 \<open>odd a\<close> a(2) by blast
    qed
  qed
qed

lemma is_prime_correct: "is_prime n \<longleftrightarrow> prime_spec n"
proof -
  consider "n < 2" | "n = 2" | "2 < n" "even n" | "3 \<le> n" "odd n"
    by atomize_elim presburger
  then show ?thesis
  proof cases
    case 1
    then show ?thesis by (simp add: is_prime_def prime_spec_def)
  next
    case 2
    have "\<not> (\<exists>d::int. 1 < d \<and> d < 2)" by presburger
    then show ?thesis using 2 by (auto simp add: is_prime_def prime_spec_def)
  next
    case 3
    then have "1 < (2::int) \<and> 2 < n \<and> 2 dvd n" by simp
    then have "\<not> prime_spec n" unfolding prime_spec_def by blast
    moreover have "\<not> is_prime n" using 3 by (simp add: is_prime_def)
    ultimately show ?thesis by simp
  next
    case 4
    then have "n mod 2 \<noteq> 0" by presburger
    with 4 have "is_prime n = trial_loop n (isqrt n) 3"
      by (simp add: is_prime_def Let_def)
    then show ?thesis using odd_prime_iff [OF 4] by (simp add: trial_loop_odd)
  qed
qed


lemma total_absorb: "total (absorb st r) = total st + report_count r"
  by (simp add: absorb_def Let_def)

lemma highest_absorb: "highest (absorb st r) = max (highest st) (report_highest r)"
  by (simp add: absorb_def Let_def)

lemma total_drain: "total (drain st rs) = total st + sum_list (map report_count rs)"
  unfolding drain_def by (induction rs arbitrary: st) (simp_all add: total_absorb)

lemma highest_drain_fold:
  "highest (drain st rs) = fold max (map report_highest rs) (highest st)"
  unfolding drain_def
  by (induction rs arbitrary: st) (simp_all add: highest_absorb max.commute)

lemma highest_drain:
  "highest (drain st rs) = Max (insert (highest st) (report_highest ` set rs))"
proof -
  have "Max (set (highest st # map report_highest rs)) = fold max (map report_highest rs) (highest st)"
    by (rule Max.set_eq_fold)
  then show ?thesis by (simp add: highest_drain_fold)
qed

lemma drain_snoc: "drain st (rs @ [r]) = absorb (drain st rs) r"
  by (simp add: drain_def)

lemma drain_mset:
  assumes "mset rs = mset rs'"
  shows "total (drain st rs) = total (drain st rs')" "highest (drain st rs) = highest (drain st rs')"
proof -
  have "sum_list (map report_count rs) = sum_mset (image_mset report_count (mset rs))"
    by (metis mset_map sum_mset_sum_list)
  also have "\<dots> = sum_list (map report_count rs')"
    unfolding assms by (metis mset_map sum_mset_sum_list)
  finally show "total (drain st rs) = total (drain st rs')" by (simp add: total_drain)
  have "set rs = set rs'" using assms by (rule mset_eq_setD)
  then show "highest (drain st rs) = highest (drain st rs')" by (simp add: highest_drain)
qed

subsection \<open>Rounding to 53 significant bits\<close>

lemma round53_small: "x < 2 ^ 53 \<Longrightarrow> round53 x = x"
  by (simp add: round53_def)

lemma bitlen_window:
  assumes "(2::int) ^ 53 \<le> x"
  obtains s :: nat where "1 \<le> s" "nat (bitlen x - 53) = s" "2 ^ (s + 52) \<le> x" "x < 2 ^ (s + 53)"
proof -
  have x0: "0 < x" using assms by (rule less_le_trans [rotated]) simp
  have "54 \<le> bitlen x"
    using assms by (simp add: bitlen_ge_iff_power)
  define s where "s = nat (bitlen x - 53)"
  have s1: "1 \<le> s" using \<open>54 \<le> bitlen x\<close> by (simp add: s_def)
  have e1: "nat (bitlen x - 1) = s + 52" and e2: "nat (bitlen x) = s + 53"
    using \<open>54 \<le> bitlen x\<close> by (simp_all add: s_def)
  from bitlen_bounds [OF x0] have lo: "2 ^ (s + 52) \<le> x" and hi: "x < 2 ^ (s + 53)"
    unfolding e1 e2 by blast+
  have "nat (bitlen x - 53) = s" by (simp only: s_def)
  from s1 this lo hi show ?thesis by (rule that)
qed

lemma round53_large:
  assumes "(2::int) ^ 53 \<le> x"
  obtains s :: nat and c :: int where
    "1 \<le> s" "2 ^ (s + 52) \<le> x" "x < 2 ^ (s + 53)"
    "round53 x = c * 2 ^ s" "2 ^ 52 \<le> c" "c \<le> 2 ^ 53" "2 * round53 x \<le> 2 * x + 2 ^ s" "2 * x \<le> 2 * round53 x + 2 ^ s"
proof -
  from assms obtain s :: nat where s: "1 \<le> s" "nat (bitlen x - 53) = s"
    "2 ^ (s + 52) \<le> x" "x < 2 ^ (s + 53)" by (rule bitlen_window)
  define q where "q = x div 2 ^ s"
  define r where "r = x mod 2 ^ s"
  define h :: int where "h = 2 ^ (s - 1)"
  define c where "c = (if r > h \<or> (r = h \<and> odd q) then q + 1 else q)"
  have hh: "2 * h = 2 ^ s"
    using s(1) by (simp add: h_def power_eq_if)
  have x: "x = q * 2 ^ s + r" unfolding q_def r_def by (rule div_mult_mod_eq [symmetric])
  have r: "0 \<le> r" "r < 2 ^ s" by (simp_all add: r_def)
  have q_lo: "2 ^ 52 \<le> q"
  proof -
    have "(2::int) ^ 52 * 2 ^ s \<le> x" using s(3) by (simp add: power_add mult.commute)
    then have "(2 ^ 52 * 2 ^ s) div 2 ^ s \<le> x div (2::int) ^ s"
      by (rule zdiv_mono1) simp
    then show ?thesis by (simp add: q_def)
  qed
  have q_hi: "q < 2 ^ 53"
  proof -
    have "x < 2 ^ 53 * (2::int) ^ s" using s(4) by (simp only: power_add mult.commute)
    moreover have "q * 2 ^ s \<le> x" using x r(1) by linarith
    ultimately have "q * 2 ^ s < 2 ^ 53 * (2::int) ^ s" by linarith
    then show ?thesis by (simp only: mult_less_cancel_right) simp
  qed
  have rd: "round53 x = c * 2 ^ s"
    using assms by (simp add: round53_def Let_def s(2) c_def q_def r_def h_def)
  have near: "2 * round53 x \<le> 2 * x + 2 ^ s \<and> 2 * x \<le> 2 * round53 x + 2 ^ s"
  proof (cases "r > h \<or> (r = h \<and> odd q)")
    case True
    then have "c = q + 1" by (simp add: c_def)
    then have "round53 x - x = 2 ^ s - r" using rd x by (simp add: algebra_simps)
    moreover have "h \<le> r" using True by auto
    ultimately show ?thesis using r hh by linarith
  next
    case False
    then have "c = q" by (simp add: c_def)
    then have "round53 x - x = - r" using rd x by simp
    moreover have "r \<le> h" using False by auto
    ultimately show ?thesis using r hh by linarith
  qed
  have "c \<le> 2 ^ 53" "2 ^ 52 \<le> c" using q_lo q_hi by (simp_all add: c_def)
  with s rd near show ?thesis using that [of s c] by simp
qed

lemma round53_nonneg: "0 \<le> x \<Longrightarrow> 0 \<le> round53 x"
proof (cases "x < 2 ^ 53")
  case True
  assume "0 \<le> x"
  then show ?thesis using True by (simp add: round53_small)
next
  case False
  then have "(2::int) ^ 53 \<le> x" by simp
  then obtain s :: nat and c :: int where "round53 x = c * 2 ^ s" "2 ^ 52 \<le> c"
    by (rule round53_large)
  then show ?thesis by simp
qed

lemma round53_mono:
  assumes "x \<le> y"
  shows "round53 x \<le> round53 y"
proof (cases "y < 2 ^ 53")
  case True
  then show ?thesis using assms by (simp add: round53_small)
next
  case False
  then have "(2::int) ^ 53 \<le> y" by simp
  then obtain t :: nat and d :: int where y:
    "1 \<le> t" "2 ^ (t + 52) \<le> y" "y < 2 ^ (t + 53)"
    "round53 y = d * 2 ^ t" "2 ^ 52 \<le> d" "d \<le> 2 ^ 53" "2 * round53 y \<le> 2 * y + 2 ^ t" "2 * y \<le> 2 * round53 y + 2 ^ t"
    by (rule round53_large)
  have ry_lo: "(2::int) ^ (t + 52) \<le> round53 y"
  proof -
    have "(2::int) ^ 52 * 2 ^ t \<le> d * 2 ^ t" using y(5) by (intro mult_right_mono) auto
    then show ?thesis using y(4) by (simp add: power_add mult.commute)
  qed
  show ?thesis
  proof (cases "x < 2 ^ 53")
    case True
    have "(2::int) ^ 53 \<le> 2 ^ (t + 52)"
      using y(1) by (intro power_increasing) auto
    then show ?thesis using True ry_lo by (simp add: round53_small)
  next
    case False
    then have "(2::int) ^ 53 \<le> x" by simp
    then obtain s :: nat and c :: int where x:
      "1 \<le> s" "2 ^ (s + 52) \<le> x" "x < 2 ^ (s + 53)"
      "round53 x = c * 2 ^ s" "2 ^ 52 \<le> c" "c \<le> 2 ^ 53" "2 * round53 x \<le> 2 * x + 2 ^ s" "2 * x \<le> 2 * round53 x + 2 ^ s"
      by (rule round53_large)
    have rx_hi: "round53 x \<le> 2 ^ (s + 53)"
    proof -
      have "c * 2 ^ s \<le> 2 ^ 53 * (2::int) ^ s" using x(6) by (intro mult_right_mono) auto
      then show ?thesis using x(4) by (simp add: power_add mult.commute)
    qed
    have st: "s \<le> t"
    proof (rule ccontr)
      assume "\<not> s \<le> t"
      then have "t + 53 \<le> s + 52" by simp
      then have "(2::int) ^ (t + 53) \<le> 2 ^ (s + 52)" by (intro power_increasing) auto
      with x(2) y(3) assms show False by linarith
    qed
    show ?thesis
    proof (cases "s = t")
      case False
      then have "s + 53 \<le> t + 52" using st by simp
      then have "(2::int) ^ (s + 53) \<le> 2 ^ (t + 52)" by (intro power_increasing) auto
      with rx_hi ry_lo show ?thesis by linarith
    next
      case True
      show ?thesis
      proof (rule ccontr)
        assume "\<not> round53 x \<le> round53 y"
        then have "d * 2 ^ s < c * 2 ^ s" using x(4) y(4) True by simp
        then have "d < c" by (simp add: mult_less_cancel_right)
        then have "d + 1 \<le> c" by simp
        then have "(d + 1) * 2 ^ s \<le> c * 2 ^ s" by (intro mult_right_mono) auto
        then have gap: "round53 y + 2 ^ s \<le> round53 x"
          using x(4) y(4) True by (simp add: algebra_simps)
        have "2 * y \<le> 2 * round53 y + 2 ^ s" using y(8) True by simp
        with x(7) gap have "y \<le> x" by linarith
        with assms have "x = y" by simp
        with \<open>\<not> round53 x \<le> round53 y\<close> show False by simp
      qed
    qed
  qed
qed

text \<open>The factor is a 53-bit significand over \<open>2 ^ 77\<close> and lies within half a unit in
  the last place of 0.00000005, so it is the double the literal denotes.\<close>

lemma factor_mantissa_nearest:
  "2 ^ 52 \<le> factor_mantissa \<and> factor_mantissa < 2 ^ 53
   \<and> 2 * \<bar>factor_mantissa * 10 ^ 8 - 5 * 2 ^ 77\<bar> \<le> 10 ^ 8"
  by (simp add: factor_mantissa_def)

subsection \<open>The double-precision product below \<open>2 ^ 53\<close>\<close>

lemma round53_times_factor:
  assumes n: "0 < n" "n < 2 ^ 53"
  shows "round53 (n * factor_mantissa) div 2 ^ 77 = n div 20000000"
proof -
  define m :: int where "m = 7555786372591432"
  define E :: int where "E = 2 ^ 77"
  define eps :: int where "eps = 6838272"
  define k where "k = n div 20000000"
  define rho where "rho = n mod 20000000"
  define P where "P = n * m"
  define R where "R = round53 P"
  have En: "E = 151115727451828646838272" by (simp add: E_def)
  have mE: "20000000 * m = E - eps" by (simp add: m_def En eps_def)
  have nk: "n = 20000000 * k + rho" by (simp add: k_def rho_def)
  have rho: "0 \<le> rho" "rho \<le> 19999999" by (simp_all add: rho_def)
  have k0: "0 \<le> k" using n by (simp add: k_def)
  have Pk: "P = k * (E - eps) + rho * m"
  proof -
    have "P = k * (20000000 * m) + rho * m" by (simp add: P_def nk algebra_simps)
    then show ?thesis by (simp only: mE)
  qed
  have rm: "0 \<le> rho * m" "rho * m \<le> 19999999 * m"
    using rho by (simp_all add: m_def)
  have ke: "0 \<le> k * eps" using k0 by (simp add: eps_def)
  have P_lo: "k * E - k * eps \<le> P" using Pk rm by (simp add: algebra_simps)
  have P_hi: "P \<le> k * E + E - eps - m"
  proof -
    have "19999999 * m = E - eps - m" using mE by simp
    then show ?thesis using Pk rm ke by (simp add: algebra_simps)
  qed
  have goal: "k * E \<le> R \<and> R < k * E + E"
  proof (cases "P < 2 ^ 53")
    case True
    then have RP: "R = P" by (simp add: R_def round53_small)
    have "n * 2 ^ 52 \<le> n * m" using n by (intro mult_left_mono) (simp_all add: m_def)
    then have "n * 2 ^ 52 < 2 ^ 53" using True by (simp add: P_def)
    then have "n < 2" by simp
    then have "k = 0" using n by (simp add: k_def)
    then show ?thesis using RP True n by (simp add: P_def m_def En)
  next
    case False
    then have "(2::int) ^ 53 \<le> P" by simp
    then obtain s :: nat and c :: int where sc:
      "1 \<le> s" "2 ^ (s + 52) \<le> P" "P < 2 ^ (s + 53)"
      "round53 P = c * 2 ^ s" "2 ^ 52 \<le> c" "c \<le> 2 ^ 53"
      "2 * round53 P \<le> 2 * P + 2 ^ s" "2 * P \<le> 2 * round53 P + 2 ^ s"
      by (rule round53_large)
    define T :: int where "T = 2 ^ s"
    have T0: "0 < T" by (simp add: T_def)
    have PT: "2 ^ 52 * T \<le> P" "P < 2 ^ 53 * T"
      using sc(2,3) by (simp_all only: T_def power_add mult.commute)
    have Rc: "R = c * T" using sc(4) by (simp only: R_def T_def)
    have near: "2 * R \<le> 2 * P + T" "2 * P \<le> 2 * R + T"
      using sc(7,8) by (simp_all only: R_def T_def)
    have "P < 2 ^ 53 * 2 ^ 53"
    proof -
      have "n * m < 2 ^ 53 * m" using n by (simp add: m_def)
      then show ?thesis by (simp add: P_def m_def)
    qed
    then have "(2::int) ^ 52 * T < 2 ^ 52 * 2 ^ 54" using PT(1) by simp
    then have "T < 2 ^ 54" by simp
    then have "(2::int) ^ s < 2 ^ 54" by (simp only: T_def)
    then have "s < 54" by (rule power_less_imp_less_exp [rotated]) simp
    then have s77: "s \<le> 77" by simp
    define U :: int where "U = 2 ^ (77 - s)"
    have EU: "E = U * T"
      using s77 by (simp add: E_def U_def T_def power_add [symmetric])
    have T53: "T \<le> 2 ^ 53"
      unfolding T_def using \<open>s < 54\<close> by (intro power_increasing) auto
    have upper: "R < k * E + E"
    proof -
      have "T \<le> 2 * m" using T53 by (simp add: m_def)
      then show ?thesis using near(1) P_hi by (simp add: eps_def)
    qed
    have lower: "k * E \<le> R"
    proof (rule ccontr)
      assume "\<not> k * E \<le> R"
      then have "c * T < (k * U) * T" by (simp add: Rc EU mult.assoc)
      then have "c < k * U" using T0 by (simp add: mult_less_cancel_right)
      then have "c + 1 \<le> k * U" by simp
      then have "(c + 1) * T \<le> (k * U) * T" using T0 by (intro mult_right_mono) simp_all
      then have "R + T \<le> k * E" by (simp add: Rc EU algebra_simps)
      with near(2) P_lo have "T \<le> 2 * (k * eps)" by linarith
      then have "T * 2 ^ 53 \<le> 2 * (k * eps) * 2 ^ 53" by (intro mult_right_mono) simp_all
      also have "\<dots> = k * (eps * 2 ^ 54)" by simp
      also have "\<dots> \<le> k * (E - eps)" using k0 by (intro mult_left_mono) (simp_all add: En eps_def)
      also have "\<dots> \<le> P" using Pk rm by simp
      finally show False using PT(2) by simp
    qed
    from lower upper show ?thesis ..
  qed
  have "R div E = k"
  proof -
    have "R = k * E + (R - k * E)" by simp
    moreover have "0 \<le> R - k * E" "R - k * E < E" using goal by simp_all
    ultimately show ?thesis
      by (metis En add.commute div_mult_self2 div_pos_pos_trivial add_0 zero_neq_numeral mult.commute)
  qed
  then show ?thesis by (simp add: R_def P_def m_def E_def k_def factor_mantissa_def)
qed

subsection \<open>The growth term: exact range, sign and monotonicity\<close>

lemma round53s_nonneg_arg: "0 \<le> x \<Longrightarrow> round53s x = round53 x"
  by (simp add: round53s_def)

lemma float_of_int_nonneg:
  "0 \<le> n \<Longrightarrow> float_of_int n = (if round53 n \<ge> 2 ^ 1024 then Inl OverflowError else Inr (round53 n))"
  using round53_nonneg [of n] by (simp add: float_of_int_def round53s_nonneg_arg Let_def)

lemma growth_nonneg_arg:
  assumes "0 \<le> n"
  shows "growth n = (if round53 n \<ge> 2 ^ 1024 then Inl OverflowError
                     else Inr (round53 (round53 n * factor_mantissa) div 2 ^ 77))"
proof -
  have "0 \<le> round53 n * factor_mantissa"
    using round53_nonneg [OF assms] by (simp add: factor_mantissa_def)
  then show ?thesis
    using assms by (simp add: growth_def float_of_int_nonneg round53s_nonneg_arg)
qed

lemma growth_exact:
  assumes "0 < n" "n < 2 ^ 53"
  shows "growth n = Inr (n div 20000000)"
proof -
  have rn: "round53 n = n" using assms(2) by (rule round53_small)
  have "n < 2 ^ 1024" using assms(2) by (rule less_trans) simp
  then have no: "\<not> 2 ^ 1024 \<le> round53 n" by (simp only: rn not_le)
  have "0 \<le> n" using assms(1) by simp
  then have "growth n = Inr (round53 (round53 n * factor_mantissa) div 2 ^ 77)"
    by (simp only: growth_nonneg_arg no if_False)
  then show ?thesis by (simp only: rn round53_times_factor [OF assms])
qed

lemma growth_nonneg:
  assumes "0 \<le> n" "growth n = Inr g"
  shows "0 \<le> g"
proof -
  have "0 \<le> round53 (round53 n * factor_mantissa)"
    using round53_nonneg [OF assms(1)] by (intro round53_nonneg) (simp add: factor_mantissa_def)
  then have "0 \<le> round53 (round53 n * factor_mantissa) div 2 ^ 77"
    by (rule pos_imp_zdiv_nonneg_iff [THEN iffD2, rotated]) simp
  then show ?thesis using assms by (auto simp: growth_nonneg_arg split: if_splits)
qed

lemma growth_mono:
  assumes "0 \<le> x" "x \<le> y" "growth x = Inr a" "growth y = Inr b"
  shows "a \<le> b"
proof -
  have "round53 x \<le> round53 y" using assms(2) by (rule round53_mono)
  then have "round53 x * factor_mantissa \<le> round53 y * factor_mantissa"
    by (intro mult_right_mono) (simp_all add: factor_mantissa_def)
  then have "round53 (round53 x * factor_mantissa) \<le> round53 (round53 y * factor_mantissa)"
    by (rule round53_mono)
  then have "round53 (round53 x * factor_mantissa) div 2 ^ 77
             \<le> round53 (round53 y * factor_mantissa) div 2 ^ 77"
    by (rule zdiv_mono1) simp
  moreover have "0 \<le> y" using assms by simp
  ultimately show ?thesis using assms by (auto simp: growth_nonneg_arg split: if_splits)
qed

lemma growth_defined_below:
  assumes "0 \<le> x" "x \<le> y" "growth y = Inr b"
  shows "\<exists>a. growth x = Inr a"
proof -
  have "round53 x \<le> round53 y" using assms(2) by (rule round53_mono)
  moreover have "0 \<le> y" using assms by simp
  ultimately show ?thesis using assms by (auto simp: growth_nonneg_arg split: if_splits)
qed

lemma growth_at_2_53: "growth (2 ^ 53) = Inr 450359962"
  by code_simp

lemma growth_at_last: "growth 9007199259999998 = Inr 450359962"
  by code_simp

lemma growth_exact_range:
  assumes "0 < n" "n < 9007199259999999"
  shows "growth n = Inr (n div 20000000)"
proof (cases "n < 2 ^ 53")
  case True
  with assms show ?thesis by (simp add: growth_exact)
next
  case False
  then have lo: "2 ^ 53 \<le> n" by simp
  have hi: "n \<le> 9007199259999998" using assms by simp
  from growth_defined_below [OF _ hi growth_at_last] assms
  obtain g where g: "growth n = Inr g" by auto
  have "450359962 \<le> g"
    using growth_mono [OF _ lo growth_at_2_53 g] by simp
  moreover have "g \<le> 450359962"
    using growth_mono [OF _ hi g growth_at_last] assms by simp
  moreover have "n div 20000000 = 450359962"
  proof (rule int_div_pos_eq)
    show "n = 20000000 * 450359962 + (n - 9007199240000000)" by simp
    show "0 \<le> n - 9007199240000000" using lo by simp
    show "n - 9007199240000000 < 20000000" using hi by simp
  qed
  ultimately show ?thesis using g by simp
qed

lemma advance_strict_mono:
  assumes "0 \<le> x" "x < y" "advance stride x = Inr x'" "advance stride y = Inr y'"
  shows "x' < y'"
proof -
  from assms(3) obtain a where a: "growth x = Inr a" "x' = x + (stride + a)"
    by (auto simp: advance_def split: sum.splits)
  from assms(4) obtain b where b: "growth y = Inr b" "y' = y + (stride + b)"
    by (auto simp: advance_def split: sum.splits)
  have "a \<le> b" using growth_mono [OF assms(1) _ a(1) b(1)] assms(2) by simp
  then show ?thesis using a b assms(2) by simp
qed

lemma advance_increases:
  assumes "0 \<le> x" "1 \<le> stride" "advance stride x = Inr x'"
  shows "x + stride \<le> x'"
proof -
  from assms(3) obtain a where a: "growth x = Inr a" "x' = x + (stride + a)"
    by (auto simp: advance_def split: sum.splits)
  then show ?thesis using growth_nonneg [OF assms(1) a(1)] by simp
qed


subsection \<open>The candidate sequence\<close>

lemma candidate_front:
  "candidate stride start (Suc n) =
     (case advance stride start of Inl e \<Rightarrow> Inl e | Inr c \<Rightarrow> candidate stride c n)"
proof (induction n)
  case 0
  show ?case by (simp split: sum.splits)
next
  case (Suc n)
  have "candidate stride start (Suc (Suc n)) =
          (case candidate stride start (Suc n) of Inl e \<Rightarrow> Inl e | Inr c \<Rightarrow> advance stride c)"
    by simp
  also have "\<dots> = (case advance stride start of Inl e \<Rightarrow> Inl e
                     | Inr c \<Rightarrow> candidate stride c (Suc n))"
    unfolding Suc.IH by (simp split: sum.splits)
  finally show ?case .
qed

lemma slice_loop_cursor:
  "slice_loop stride k (cur, cnt, mx) = Inr (cur1, cnt1, mx1) \<Longrightarrow> candidate stride cur k = Inr cur1"
proof (induction k arbitrary: cur cnt mx)
  case 0
  then show ?case by simp
next
  case (Suc k)
  from Suc.prems obtain g where g: "growth cur = Inr g"
    by (cases "growth cur") (simp_all add: Let_def split: if_splits)
  then have adv: "advance stride cur = Inr (cur + (stride + g))" by (simp add: advance_def)
  from Suc.prems g obtain cnt' mx' where
    "slice_loop stride k (cur + (stride + g), cnt', mx') = Inr (cur1, cnt1, mx1)"
    by (simp add: Let_def split: if_splits)
  then have "candidate stride (cur + (stride + g)) k = Inr cur1" by (rule Suc.IH)
  then show ?case by (simp only: candidate_front adv sum.case)
qed

lemma candidate_prefix_defined:
  "candidate stride start n = Inr y \<Longrightarrow> m \<le> n \<Longrightarrow> \<exists>x. candidate stride start m = Inr x"
proof (induction n arbitrary: y)
  case 0
  then show ?case by simp
next
  case (Suc n)
  show ?case
  proof (cases "m = Suc n")
    case True
    then show ?thesis using Suc.prems by simp
  next
    case False
    then have "m \<le> n" using Suc.prems by simp
    moreover from Suc.prems(1) obtain c where "candidate stride start n = Inr c"
      by (cases "candidate stride start n") simp_all
    ultimately show ?thesis using Suc.IH by blast
  qed
qed

lemma candidate_lower:
  assumes "0 \<le> start" "1 \<le> stride"
  shows "candidate stride start n = Inr c \<Longrightarrow> start + int n * stride \<le> c"
proof (induction n arbitrary: c)
  case 0
  then show ?case by simp
next
  case (Suc n)
  from Suc.prems obtain b where b: "candidate stride start n = Inr b" "advance stride b = Inr c"
    by (cases "candidate stride start n") simp_all
  have lo: "start + int n * stride \<le> b" using b(1) by (rule Suc.IH)
  have "0 \<le> int n * stride" using assms(2) by simp
  then have "0 \<le> b" using lo assms(1) by linarith
  then have "b + stride \<le> c" using assms(2) b(2) by (rule advance_increases)
  then show ?case using lo by (simp add: algebra_simps)
qed

lemma candidate_step_increases:
  assumes "0 \<le> start" "1 \<le> stride"
    and "candidate stride start n = Inr x" "candidate stride start (Suc n) = Inr y"
  shows "x < y"
proof -
  have "0 \<le> int n * stride" using assms(2) by simp
  then have "0 \<le> x" using candidate_lower [OF assms(1,2,3)] assms(1) by linarith
  moreover have "advance stride x = Inr y" using assms(3,4) by simp
  ultimately have "x + stride \<le> y" using assms(2) by (intro advance_increases)
  then show ?thesis using assms(2) by simp
qed

lemma candidate_increasing:
  assumes "0 \<le> start" "1 \<le> stride"
  shows "m < n \<Longrightarrow> candidate stride start m = Inr x \<Longrightarrow> candidate stride start n = Inr y \<Longrightarrow> x < y"
proof (induction n arbitrary: y)
  case 0
  then show ?case by simp
next
  case (Suc n)
  from Suc.prems(3) obtain b where b: "candidate stride start n = Inr b"
    by (cases "candidate stride start n") simp_all
  have by': "b < y" using assms b Suc.prems(3) by (rule candidate_step_increases)
  show ?case
  proof (cases "m = n")
    case True
    then show ?thesis using b Suc.prems(2) by' by simp
  next
    case False
    then have "m < n" using Suc.prems(1) by simp
    then have "x < b" using Suc.prems(2) b by (rule Suc.IH)
    then show ?thesis using by' by simp
  qed
qed

subsection \<open>Trajectories of different workers, and what a slice counts\<close>

lemma advance_inj:
  assumes "0 \<le> u" "0 \<le> v" "advance stride u = Inr x" "advance stride v = Inr x"
  shows "u = v"
proof (rule ccontr)
  assume "u \<noteq> v"
  then consider "u < v" | "v < u" by linarith
  then show False
  proof cases
    case 1
    from advance_strict_mono [OF assms(1) 1 assms(3,4)] show False by simp
  next
    case 2
    from advance_strict_mono [OF assms(2) 2 assms(4,3)] show False by simp
  qed
qed

lemma candidate_nonneg:
  assumes "0 \<le> start" "1 \<le> stride" "candidate stride start n = Inr c"
  shows "0 \<le> c"
proof -
  have "0 \<le> int n * stride" using assms(2) by simp
  then show ?thesis using candidate_lower [OF assms] assms(1) by linarith
qed

lemma candidate_meet:
  assumes "0 \<le> s" "0 \<le> t" "1 \<le> stride"
  shows "candidate stride s a = Inr x \<Longrightarrow> candidate stride t b = Inr x \<Longrightarrow> a \<le> b
         \<Longrightarrow> candidate stride t (b - a) = Inr s"
proof (induction a arbitrary: b x)
  case 0
  then show ?case by simp
next
  case (Suc a)
  from Suc.prems(3) obtain b' where b': "b = Suc b'" "a \<le> b'" by (cases b) simp_all
  from Suc.prems(1) obtain u where u: "candidate stride s a = Inr u" "advance stride u = Inr x"
    by (cases "candidate stride s a") simp_all
  from Suc.prems(2) b' obtain v where v: "candidate stride t b' = Inr v" "advance stride v = Inr x"
    by (cases "candidate stride t b'") simp_all
  have "0 \<le> u" using assms(1,3) u(1) by (rule candidate_nonneg)
  moreover have "0 \<le> v" using assms(2,3) v(1) by (rule candidate_nonneg)
  ultimately have "u = v" using u(2) v(2) by (rule advance_inj)
  then have "candidate stride t b' = Inr u" using v(1) by simp
  with u(1) have "candidate stride t (b' - a) = Inr s" using b'(2) by (rule Suc.IH)
  then show ?case using b'(1) by simp
qed

lemma trajectories_apart:
  assumes N: "1 \<le> N" and i: "0 \<le> i" "i < N" and j: "0 \<le> j" "j < N" and ij: "i \<noteq> j"
    and a: "candidate N (100 + i) a = Inr x" and b: "candidate N (100 + j) b = Inr x"
    and ab: "a \<le> b"
  shows False
proof -
  have meet: "candidate N (100 + j) (b - a) = Inr (100 + i)"
    using _ _ N a b ab by (rule candidate_meet) (use i j in simp_all)
  show False
  proof (cases "b - a")
    case 0
    then show ?thesis using meet ij by simp
  next
    case (Suc d)
    have "100 + j + int (b - a) * N \<le> 100 + i"
      using _ N meet by (rule candidate_lower) (use j in simp)
    moreover have "1 * N \<le> int (b - a) * N"
      using N Suc by (intro mult_right_mono) simp_all
    ultimately show ?thesis using i j by linarith
  qed
qed

lemma slice_loop_result:
  "slice_loop stride k (cur, cnt, mx) = Inr (cur1, cnt1, mx1) \<Longrightarrow>
     cnt1 = cnt + int (length (filter is_prime (tested stride k cur)))
     \<and> mx1 = (if filter is_prime (tested stride k cur) = [] then mx
              else last (filter is_prime (tested stride k cur)))"
proof (induction k arbitrary: cur cnt mx)
  case 0
  then show ?case by simp
next
  case (Suc k)
  from Suc.prems obtain g where g: "growth cur = Inr g"
    by (cases "growth cur") (simp_all add: Let_def split: if_splits)
  then have adv: "advance stride cur = Inr (cur + (stride + g))" by (simp add: advance_def)
  define nxt where "nxt = cur + (stride + g)"
  have tst: "tested stride (Suc k) cur = cur # tested stride k nxt"
    by (simp add: adv nxt_def)
  show ?case
  proof (cases "is_prime cur")
    case True
    with Suc.prems g have "slice_loop stride k (nxt, cnt + 1, cur) = Inr (cur1, cnt1, mx1)"
      by (simp add: nxt_def)
    from Suc.IH [OF this] show ?thesis unfolding tst using True by simp
  next
    case False
    with Suc.prems g have "slice_loop stride k (nxt, cnt, mx) = Inr (cur1, cnt1, mx1)"
      by (simp add: nxt_def)
    from Suc.IH [OF this] show ?thesis unfolding tst using False by simp
  qed
qed

lemma tested_increasing:
  assumes "1 \<le> stride"
  shows "0 \<le> cur \<Longrightarrow> sorted_wrt (<) (tested stride k cur) \<and> (\<forall>c \<in> set (tested stride k cur). cur \<le> c)"
proof (induction k arbitrary: cur)
  case 0
  show ?case by simp
next
  case (Suc k)
  show ?case
  proof (cases "advance stride cur")
    case (Inl e)
    then show ?thesis by simp
  next
    case (Inr nxt)
    have step: "cur + stride \<le> nxt" using Suc.prems assms Inr by (rule advance_increases)
    then have "0 \<le> nxt" using Suc.prems assms by simp
    from Suc.IH [OF this] show ?thesis using Inr step assms by auto
  qed
qed

lemma is_prime_pos: "is_prime n \<Longrightarrow> 2 \<le> n"
  by (simp add: is_prime_def split: if_splits)

lemma sorted_last_Max:
  "sorted_wrt (<) (xs :: int list) \<Longrightarrow> xs \<noteq> [] \<Longrightarrow> last xs = Max (set xs)"
proof (induction xs)
  case Nil
  then show ?case by simp
next
  case (Cons x xs)
  show ?case
  proof (cases "xs = []")
    case True
    then show ?thesis by simp
  next
    case False
    then have "last xs = Max (set xs)" using Cons by simp
    moreover have "x < Max (set xs)"
    proof -
      have "hd xs \<in> set xs" using False by simp
      moreover have "\<forall>y \<in> set xs. x < y" using Cons.prems by simp
      ultimately show ?thesis using False by (subst Max_gr_iff) blast+
    qed
    ultimately show ?thesis using False by (simp add: max_def)
  qed
qed

subsection \<open>The worker loop\<close>

lemma slice_loop_crash:
  "slice_loop stride k (cur, cnt, mx) = Inl e \<Longrightarrow> candidate stride cur k = Inl e"
proof (induction k arbitrary: cur cnt mx)
  case 0
  then show ?case by simp
next
  case (Suc k)
  show ?case
  proof (cases "growth cur")
    case (Inl e')
    then have "e' = e" using Suc.prems by (simp add: Let_def split: if_splits)
    then have "advance stride cur = Inl e" using Inl by (simp add: advance_def)
    then show ?thesis by (simp only: candidate_front sum.case)
  next
    case (Inr g)
    then have adv: "advance stride cur = Inr (cur + (stride + g))" by (simp add: advance_def)
    from Suc.prems Inr obtain cnt' mx' where
      "slice_loop stride k (cur + (stride + g), cnt', mx') = Inl e"
      by (simp add: Let_def split: if_splits)
    then have "candidate stride (cur + (stride + g)) k = Inl e" by (rule Suc.IH)
    then show ?thesis by (simp only: candidate_front adv sum.case)
  qed
qed

lemma candidate_add:
  "candidate stride c (k + n) =
     (case candidate stride c k of Inl e \<Rightarrow> Inl e | Inr c1 \<Rightarrow> candidate stride c1 n)"
proof (induction n)
  case 0
  show ?case by (simp split: sum.splits)
next
  case (Suc n)
  have "candidate stride c (k + Suc n) =
          (case candidate stride c (k + n) of Inl e \<Rightarrow> Inl e | Inr b \<Rightarrow> advance stride b)"
    by simp
  then show ?case unfolding Suc.IH by (simp split: sum.splits)
qed

lemma worker_loop_crash:
  "snd (worker_loop worker_id stride c env) = Crashed e \<Longrightarrow> \<exists>n. candidate stride c n = Inl e"
proof (induction env arbitrary: c)
  case Nil
  then show ?case by simp
next
  case (Cons ob env)
  obtain is_set k where ob: "ob = (is_set, k)" by (cases ob)
  have unset: "\<not> is_set" using Cons.prems ob by (auto split: if_splits)
  show ?case
  proof (cases "slice_loop stride k (c, 0, 0)")
    case (Inl e')
    then have "e' = e" using Cons.prems ob unset by (simp add: time_slice_def)
    then have "candidate stride c k = Inl e" using Inl by (simp add: slice_loop_crash)
    then show ?thesis ..
  next
    case (Inr res)
    obtain c1 cnt mx where res: "res = (c1, cnt, mx)" by (cases res)
    have cur: "candidate stride c k = Inr c1" using Inr res by (simp add: slice_loop_cursor)
    have "snd (worker_loop worker_id stride c1 env) = Crashed e"
      using Cons.prems ob unset Inr res
      by (simp add: time_slice_def split_beta)
    then obtain n where "candidate stride c1 n = Inl e" using Cons.IH by blast
    then have "candidate stride c (k + n) = Inl e" by (simp only: candidate_add cur sum.case)
    then show ?thesis ..
  qed
qed

lemma candidate_first_crash:
  "candidate stride c n = Inl e \<Longrightarrow> \<exists>m x. candidate stride c m = Inr x \<and> advance stride x = Inl e"
proof (induction n)
  case 0
  then show ?case by simp
next
  case (Suc n)
  show ?case
  proof (cases "candidate stride c n")
    case (Inl e')
    then have "e' = e" using Suc.prems by simp
    then show ?thesis using Inl Suc.IH by simp
  next
    case (Inr x)
    then have "advance stride x = Inl e" using Suc.prems by simp
    then show ?thesis using Inr by blast
  qed
qed

lemma round53_below_threshold: "round53 (2 ^ 1024 - 2 ^ 970 - 1) < 2 ^ 1024"
  by code_simp

lemma growth_overflow_threshold:
  assumes "0 \<le> x" "growth x = Inl e"
  shows "2 ^ 1024 - 2 ^ 970 \<le> x"
proof (rule ccontr)
  assume "\<not> 2 ^ 1024 - 2 ^ 970 \<le> x"
  then have "x \<le> 2 ^ 1024 - 2 ^ 970 - 1" by simp
  then have "round53 x \<le> round53 (2 ^ 1024 - 2 ^ 970 - 1)" by (rule round53_mono)
  then have "\<not> 2 ^ 1024 \<le> round53 x" using round53_below_threshold by linarith
  then show False using assms by (simp only: growth_nonneg_arg if_False) simp
qed

lemma worker_loop_exit:
  "\<forall>ob \<in> set pre. \<not> fst ob \<Longrightarrow>
     worker_loop worker_id stride c (pre @ (True, k) # post) =
       (fst (worker_loop worker_id stride c pre),
        case snd (worker_loop worker_id stride c pre) of Running c1 \<Rightarrow> Exited | out \<Rightarrow> out)"
proof (induction pre arbitrary: c)
  case Nil
  show ?case by simp
next
  case (Cons ob pre)
  obtain is_set j where ob: "ob = (is_set, j)" by (cases ob)
  have unset: "\<not> is_set" using Cons.prems ob by simp
  have rest: "\<forall>ob \<in> set pre. \<not> fst ob" using Cons.prems by simp
  show ?case
  proof (cases "time_slice worker_id stride j c")
    case (Inl e)
    then show ?thesis using ob unset by simp
  next
    case (Inr res)
    obtain c1 rep where res: "res = (c1, rep)" by (cases res)
    show ?thesis
      using ob unset Inr res Cons.IH [OF rest, of c1]
      by (simp add: split_beta)
  qed
qed

lemma worker_loop_no_exit:
  "\<forall>ob \<in> set env. \<not> fst ob \<Longrightarrow> snd (worker_loop worker_id stride c env) \<noteq> Exited"
proof (induction env arbitrary: c)
  case Nil
  show ?case by simp
next
  case (Cons ob env)
  obtain is_set j where ob: "ob = (is_set, j)" by (cases ob)
  have unset: "\<not> is_set" using Cons.prems ob by simp
  have rest: "\<forall>ob \<in> set env. \<not> fst ob" using Cons.prems by simp
  show ?case
    using ob unset Cons.IH [OF rest]
    by (simp add: split_beta split: sum.splits prod.splits)
qed

lemma worker_loop_sent_length:
  "length (fst (worker_loop worker_id stride c env)) \<le> length env"
proof (induction env arbitrary: c)
  case Nil
  show ?case by simp
next
  case (Cons ob env)
  obtain is_set j where ob: "ob = (is_set, j)" by (cases ob)
  show ?case
  proof (cases "is_set")
    case True
    then show ?thesis using ob by simp
  next
    case False
    show ?thesis
    proof (cases "time_slice worker_id stride j c")
      case (Inl e)
      then show ?thesis using ob False by simp
    next
      case (Inr res)
      obtain c1 rep where res: "res = (c1, rep)" by (cases res)
      have "length (fst (worker_loop worker_id stride c1 env)) \<le> length env" by (rule Cons.IH)
      then show ?thesis using ob False Inr res by (simp add: split_beta split: option.splits)
    qed
  qed
qed

subsection \<open>The candidates of a slice, and the sequence below 20000000\<close>

lemma tested_candidates:
  "candidate stride cur k = Inr y \<Longrightarrow>
     map Inr (tested stride k cur) = map (candidate stride cur) [0..<k]"
proof (induction k arbitrary: cur y)
  case 0
  show ?case by simp
next
  case (Suc k)
  from Suc.prems obtain nxt where nxt: "advance stride cur = Inr nxt" "candidate stride nxt k = Inr y"
    by (cases "advance stride cur") (simp_all only: candidate_front sum.case sum.distinct)
  have shift: "map (candidate stride cur) [0..<Suc k]
                 = Inr cur # map (candidate stride nxt) [0..<k]"
  proof -
    have "[0..<Suc k] = 0 # map Suc [0..<k]" by (simp only: upt_conv_Cons zero_less_Suc map_Suc_upt)
    then have "map (candidate stride cur) [0..<Suc k]
                 = candidate stride cur 0 # map (\<lambda>n. candidate stride cur (Suc n)) [0..<k]"
      by (simp add: comp_def)
    also have "(\<lambda>n. candidate stride cur (Suc n)) = candidate stride nxt"
      by (rule ext) (simp only: candidate_front nxt(1) sum.case)
    finally show ?thesis by simp
  qed
  have "map Inr (tested stride (Suc k) cur) = Inr cur # map Inr (tested stride k nxt)"
    by (simp add: nxt(1))
  also have "map Inr (tested stride k nxt) = map (candidate stride nxt) [0..<k]"
    using nxt(2) by (rule Suc.IH)
  finally show ?case by (simp only: shift)
qed

lemma candidate_closed_form:
  assumes "0 < start" "0 \<le> stride"
  shows "\<forall>m<n. start + int m * stride < 20000000 \<Longrightarrow>
           candidate stride start n = Inr (start + int n * stride)"
proof (induction n)
  case 0
  show ?case by simp
next
  case (Suc n)
  have "\<forall>m<n. start + int m * stride < 20000000" using Suc.prems by simp
  then have c: "candidate stride start n = Inr (start + int n * stride)" by (rule Suc.IH)
  define x where "x = start + int n * stride"
  have "0 \<le> int n * stride" using assms(2) by simp
  then have x0: "0 < x" using assms(1) by (simp add: x_def)
  have x1: "x < 20000000" using Suc.prems by (simp add: x_def)
  then have "x < 2 ^ 53" by simp
  with x0 have "growth x = Inr (x div 20000000)" by (rule growth_exact)
  then have "growth x = Inr 0" using x0 x1 by simp
  then have "advance stride x = Inr (x + stride)" by (simp add: advance_def)
  then show ?case using c by (simp add: x_def algebra_simps)
qed

subsection \<open>Reaching the overflow\<close>

lemma slice_loop_crash_conv:
  "candidate stride cur k = Inl e \<Longrightarrow> slice_loop stride k (cur, cnt, mx) = Inl e"
proof (induction k arbitrary: cur cnt mx)
  case 0
  then show ?case by simp
next
  case (Suc k)
  show ?case
  proof (cases "growth cur")
    case (Inl e')
    then have "advance stride cur = Inl e'" by (simp add: advance_def)
    then have "candidate stride cur (Suc k) = Inl e'" by (simp only: candidate_front sum.case)
    then have "e' = e" using Suc.prems by simp
    then show ?thesis using Inl by (simp add: Let_def split_beta)
  next
    case (Inr g)
    then have adv: "advance stride cur = Inr (cur + (stride + g))" by (simp add: advance_def)
    have "candidate stride (cur + (stride + g)) k = Inl e"
      using Suc.prems by (simp only: candidate_front adv sum.case)
    then have "slice_loop stride k (cur + (stride + g), cnt', mx') = Inl e" for cnt' mx'
      by (rule Suc.IH)
    then show ?thesis using Inr by (simp add: Let_def split_beta)
  qed
qed

lemma round53_at_threshold: "2 ^ 1024 \<le> round53 (2 ^ 1024 - 2 ^ 970)"
  by code_simp

lemma growth_overflows:
  assumes "2 ^ 1024 - 2 ^ 970 \<le> x"
  shows "growth x = Inl OverflowError"
proof -
  have "(0::int) \<le> 2 ^ 1024 - 2 ^ 970" by simp
  then have x0: "0 \<le> x" using assms by (rule order_trans)
  have "round53 (2 ^ 1024 - 2 ^ 970) \<le> round53 x" using assms by (rule round53_mono)
  then have "2 ^ 1024 \<le> round53 x" using round53_at_threshold by (rule order_trans [rotated])
  then show ?thesis by (simp only: growth_nonneg_arg [OF x0] if_True)
qed

lemma candidate_overflows:
  assumes "0 \<le> start" "1 \<le> stride"
  shows "\<exists>n. candidate stride start n = Inl OverflowError"
proof -
  define n where "n = nat (2 ^ 1024)"
  show ?thesis
  proof (cases "candidate stride start n")
    case (Inl e)
    moreover have "e = OverflowError" by (cases e) simp
    ultimately show ?thesis by blast
  next
    case (Inr x)
    have "start + int n * stride \<le> x" using assms Inr by (rule candidate_lower)
    moreover have "int n * 1 \<le> int n * stride" using assms(2) by (intro mult_left_mono) simp_all
    moreover have "int n = 2 ^ 1024" by (simp add: n_def)
    ultimately have "2 ^ 1024 \<le> x" using assms(1) by linarith
    then have "2 ^ 1024 - 2 ^ 970 \<le> x" by simp
    then have "growth x = Inl OverflowError" by (rule growth_overflows)
    then have "advance stride x = Inl OverflowError" by (simp add: advance_def)
    then have "candidate stride start (Suc n) = Inl OverflowError" using Inr by simp
    then show ?thesis ..
  qed
qed

lemma worker_loop_can_crash:
  assumes "0 \<le> c" "1 \<le> stride"
  shows "\<exists>k. worker_loop worker_id stride c [(False, k)] = ([], Crashed OverflowError)"
proof -
  from candidate_overflows [OF assms] obtain k where "candidate stride c k = Inl OverflowError" ..
  then have "slice_loop stride k (c, 0, 0) = Inl OverflowError" by (rule slice_loop_crash_conv)
  then have "worker_loop worker_id stride c [(False, k)] = ([], Crashed OverflowError)"
    by (simp add: time_slice_def)
  then show ?thesis ..
qed

subsection \<open>Rounding a rational to a double\<close>

lemma binexp_bounds:
  assumes "0 < x"
  shows "power_int 2 (binexp x) \<le> x \<and> x < power_int 2 (binexp x + 1)"
proof -
  obtain p q where pq: "quotient_of x = (p, q)" by (cases "quotient_of x")
  have q0: "0 < q" using pq by (rule quotient_of_denom_pos)
  have x: "x = of_int p / of_int q" using pq by (rule quotient_of_div)
  have p0: "0 < p"
  proof (rule ccontr)
    assume "\<not> 0 < p"
    then have "of_int p \<le> (0::rat)" by simp
    then have "x \<le> 0" unfolding x using q0 by (simp add: divide_le_0_iff)
    then show False using assms by simp
  qed
  define bp where "bp = bitlen p"
  define bq where "bq = bitlen q"
  have bp1: "1 \<le> bp" using p0 by (simp add: bp_def bitlen_ge_iff_power)
  have bq1: "1 \<le> bq" using q0 by (simp add: bq_def bitlen_ge_iff_power)
  from bitlen_bounds [OF p0] have pi: "2 ^ nat (bp - 1) \<le> p" "p < 2 ^ nat bp"
    by (simp_all add: bp_def)
  from bitlen_bounds [OF q0] have qi: "2 ^ nat (bq - 1) \<le> q" "q < 2 ^ nat bq"
    by (simp_all add: bq_def)
  have pr: "power_int 2 (bp - 1) \<le> (of_int p :: rat)" "(of_int p :: rat) < power_int 2 bp"
  proof -
    have "(of_int (2 ^ nat (bp - 1)) :: rat) \<le> of_int p" using pi(1) by (simp only: of_int_le_iff)
    then show "power_int 2 (bp - 1) \<le> (of_int p :: rat)" using bp1 by (simp add: power_int_def)
    have "(of_int p :: rat) < of_int (2 ^ nat bp)" using pi(2) by (simp only: of_int_less_iff)
    then show "(of_int p :: rat) < power_int 2 bp" using bp1 by (simp add: power_int_def)
  qed
  have qr: "power_int 2 (bq - 1) \<le> (of_int q :: rat)" "(of_int q :: rat) < power_int 2 bq"
  proof -
    have "(of_int (2 ^ nat (bq - 1)) :: rat) \<le> of_int q" using qi(1) by (simp only: of_int_le_iff)
    then show "power_int 2 (bq - 1) \<le> (of_int q :: rat)" using bq1 by (simp add: power_int_def)
    have "(of_int q :: rat) < of_int (2 ^ nat bq)" using qi(2) by (simp only: of_int_less_iff)
    then show "(of_int q :: rat) < power_int 2 bq" using bq1 by (simp add: power_int_def)
  qed
  have qpos: "(0::rat) < of_int q" using q0 by simp
  have ppos: "(0::rat) < of_int p" using p0 by simp
  have hi: "x < power_int 2 (bp - bq + 1)"
  proof -
    have "x < power_int 2 bp / of_int q"
      unfolding x using pr(2) qpos by (rule divide_strict_right_mono)
    also have "\<dots> \<le> power_int 2 bp / power_int 2 (bq - 1)"
      using qr(1) qpos by (intro divide_left_mono mult_pos_pos) simp_all
    also have "\<dots> = power_int 2 (bp - (bq - 1))"
      by (simp add: power_int_diff)
    finally show ?thesis by (simp add: algebra_simps)
  qed
  have lo: "power_int 2 (bp - bq - 1) \<le> x"
  proof -
    have "power_int 2 (bp - bq - 1) = power_int 2 (bp - 1 - bq)" by (simp add: algebra_simps)
    also have "\<dots> = power_int (2::rat) (bp - 1) / power_int 2 bq"
      by (simp add: power_int_diff)
    also have "\<dots> \<le> power_int 2 (bp - 1) / of_int q"
      using qr(2) qpos by (intro divide_left_mono mult_pos_pos) simp_all
    also have "\<dots> \<le> x"
      unfolding x using pr(1) qpos by (intro divide_right_mono) simp_all
    finally show ?thesis .
  qed
  have be: "binexp x = (if power_int 2 (bp - bq) \<le> x then bp - bq else bp - bq - 1)"
    by (simp add: binexp_def pq bp_def bq_def Let_def)
  show ?thesis
  proof (cases "power_int 2 (bp - bq) \<le> x")
    case True
    then show ?thesis using be hi by simp
  next
    case False
    then have b: "binexp x = bp - bq - 1" using be by simp
    have "binexp x + 1 = bp - bq" unfolding b by simp
    then have "x < power_int 2 (binexp x + 1)" using False by simp
    moreover have "power_int 2 (binexp x) \<le> x" unfolding b by (rule lo)
    ultimately show ?thesis by simp
  qed
qed

lemma round_half_even_ge:
  "of_int N \<le> y \<Longrightarrow> N \<le> round_half_even y"
proof -
  assume "of_int N \<le> y"
  then have "N \<le> \<lfloor>y\<rfloor>" by (simp add: le_floor_iff)
  then show ?thesis by (simp add: round_half_even_def Let_def)
qed

lemma round_half_even_le:
  "y \<le> of_int N \<Longrightarrow> round_half_even y \<le> N"
proof (cases "y = of_int N")
  case True
  then show ?thesis by (simp add: round_half_even_def Let_def)
next
  case False
  assume "y \<le> of_int N"
  with False have "y < of_int N" by simp
  then have "\<lfloor>y\<rfloor> < N" by (simp add: floor_less_iff)
  then show ?thesis by (simp add: round_half_even_def Let_def)
qed

lemma round_half_even_ge_even:
  assumes "even N"
  shows "N \<le> round_half_even y \<longleftrightarrow> of_int N - 1 / 2 \<le> y"
proof
  assume h: "of_int N - 1 / 2 \<le> y"
  show "N \<le> round_half_even y"
  proof (cases "of_int N \<le> y")
    case True
    then show ?thesis by (rule round_half_even_ge)
  next
    case False
    then have lt: "y < of_int N" by simp
    have "of_int (N - 1) \<le> y" using h by simp
    then have "N - 1 \<le> \<lfloor>y\<rfloor>" by (simp only: le_floor_iff)
    moreover have "\<lfloor>y\<rfloor> < N" using lt by (simp add: floor_less_iff)
    ultimately have f: "\<lfloor>y\<rfloor> = N - 1" by simp
    have d: "1 / 2 \<le> y - of_int (N - 1)" using h by simp
    have odd: "odd (N - 1)" using assms by simp
    show ?thesis
      using d odd unfolding round_half_even_def Let_def f by auto
  qed
next
  assume h: "N \<le> round_half_even y"
  show "of_int N - 1 / 2 \<le> y"
  proof (rule ccontr)
    assume "\<not> of_int N - 1 / 2 \<le> y"
    then have lt: "y < of_int N - 1 / 2" by simp
    then have "y < of_int N" by simp
    then have fl: "\<lfloor>y\<rfloor> \<le> N - 1" by (simp add: floor_less_iff)
    show False
    proof (cases "\<lfloor>y\<rfloor> = N - 1")
      case True
      have "y - of_int (N - 1) < 1 / 2" using lt by simp
      then have "round_half_even y = N - 1"
        unfolding round_half_even_def Let_def True by simp
      then show False using h by simp
    next
      case False
      then have "\<lfloor>y\<rfloor> + 1 \<le> N - 1" using fl by simp
      moreover have "round_half_even y \<le> \<lfloor>y\<rfloor> + 1"
        by (simp add: round_half_even_def Let_def)
      ultimately show False using h by simp
    qed
  qed
qed

lemma round_double_nonpos:
  assumes "x \<le> 0"
  shows "round_double x \<le> 0"
proof (cases "x = 0")
  case True
  then show ?thesis by (simp add: round_double_def)
next
  case False
  then have neg: "x < 0" using assms by simp
  define u where "u = power_int (2::rat) (max (binexp \<bar>x\<bar>) (- 1022) - 52)"
  have u0: "0 < u" by (simp add: u_def)
  have "of_int 0 \<le> \<bar>x\<bar> / u" using u0 by simp
  then have "0 \<le> round_half_even (\<bar>x\<bar> / u)" by (rule round_half_even_ge)
  then have "0 \<le> of_int (round_half_even (\<bar>x\<bar> / u)) * u" using u0 by simp
  moreover have "round_double x = - (of_int (round_half_even (\<bar>x\<bar> / u)) * u)"
    using neg False by (simp add: round_double_def Let_def u_def)
  ultimately show ?thesis by simp
qed

lemma round_double_pos:
  assumes "0 < x"
  shows "round_double x =
           of_int (round_half_even (x / power_int 2 (max (binexp x) (- 1022) - 52)))
             * power_int 2 (max (binexp x) (- 1022) - 52)"
  using assms by (simp add: round_double_def Let_def)

lemma round_double_ge_one:
  "1 \<le> round_double x \<longleftrightarrow> 1 - 1 / 2 ^ 54 \<le> x"
proof -
  consider "x \<le> 0" | "0 < x" "x < 1 / 2" | "1 / 2 \<le> x" "x < 1" | "1 \<le> x"
    by linarith
  then show ?thesis
  proof cases
    case 1
    then have "round_double x \<le> 0" by (rule round_double_nonpos)
    then show ?thesis using 1 by simp
  next
    case 2
    define b where "b = binexp x"
    define e where "e = max b (- 1022)"
    define u where "u = power_int (2::rat) (e - 52)"
    have u0: "0 < u" by (simp add: u_def)
    from binexp_bounds [OF 2(1)] have bb: "power_int 2 b \<le> x" "x < power_int 2 (b + 1)"
      by (simp_all add: b_def)
    have b2: "b \<le> - 2"
    proof (rule ccontr)
      assume "\<not> b \<le> - 2"
      then have "- 1 \<le> b" by simp
      then have "power_int (2::rat) (- 1) \<le> power_int 2 b" by (intro power_int_increasing) simp_all
      then show False using bb(1) 2(2) by (simp add: power_int_minus)
    qed
    then have e2: "e \<le> - 2" "b \<le> e" by (simp_all add: e_def)
    have xe: "x < power_int 2 (e + 1)"
    proof -
      have "power_int (2::rat) (b + 1) \<le> power_int 2 (e + 1)"
        using e2(2) by (intro power_int_increasing) simp_all
      then show ?thesis using bb(2) by simp
    qed
    have pw: "power_int (2::rat) (e + 1) = 2 ^ 53 * u"
    proof -
      have "power_int (2::rat) (53 + (e - 52)) = power_int 2 53 * power_int 2 (e - 52)"
        by (rule power_int_add) simp
      moreover have "53 + (e - 52) = e + 1" by simp
      ultimately have "power_int (2::rat) (e + 1) = power_int 2 53 * u"
        by (simp only: u_def)
      then show ?thesis by simp
    qed
    have "x / u < 2 ^ 53" using xe u0 unfolding pw by (simp add: divide_less_eq)
    then have "x / u \<le> of_int (2 ^ 53)" by simp
    then have "round_half_even (x / u) \<le> 2 ^ 53" by (rule round_half_even_le)
    then have "(of_int (round_half_even (x / u)) :: rat) \<le> of_int (2 ^ 53)"
      by (simp only: of_int_le_iff)
    then have "of_int (round_half_even (x / u)) * u \<le> 2 ^ 53 * u"
      using u0 by (intro mult_right_mono) simp_all
    also have "\<dots> = power_int 2 (e + 1)" by (simp only: pw)
    also have "\<dots> \<le> power_int 2 (- 1)" using e2(1) by (intro power_int_increasing) simp_all
    finally have "round_double x \<le> 1 / 2"
      using 2(1) by (simp add: round_double_pos b_def e_def u_def power_int_minus)
    then show ?thesis using 2(2) by simp
  next
    case 3
    have x0: "0 < x" using 3(1) by simp
    define b where "b = binexp x"
    from binexp_bounds [OF x0] have bb: "power_int 2 b \<le> x" "x < power_int 2 (b + 1)"
      by (simp_all add: b_def)
    have "b \<le> - 1"
    proof (rule ccontr)
      assume "\<not> b \<le> - 1"
      then have "0 \<le> b" by simp
      then have "power_int (2::rat) 0 \<le> power_int 2 b" by (intro power_int_increasing) simp_all
      then show False using bb(1) 3(2) by simp
    qed
    moreover have "- 1 \<le> b"
    proof (rule ccontr)
      assume "\<not> - 1 \<le> b"
      then have "b + 1 \<le> - 1" by simp
      then have "power_int (2::rat) (b + 1) \<le> power_int 2 (- 1)"
        by (intro power_int_increasing) simp_all
      then show False using bb(2) 3(1) by (simp add: power_int_minus)
    qed
    ultimately have b: "binexp x = - 1" by (simp add: b_def)
    have u: "power_int (2::rat) (max (- 1) (- 1022) - 52) = 1 / 2 ^ 53"
      by (simp add: power_int_minus_divide)
    have rd: "round_double x = of_int (round_half_even (x * 2 ^ 53)) / 2 ^ 53"
      using x0 by (simp add: round_double_pos b u)
    have "1 \<le> round_double x \<longleftrightarrow> (of_int (2 ^ 53) :: rat) \<le> of_int (round_half_even (x * 2 ^ 53))"
      unfolding rd by (simp add: le_divide_eq)
    also have "\<dots> \<longleftrightarrow> 2 ^ 53 \<le> round_half_even (x * 2 ^ 53)"
      by (simp only: of_int_le_iff)
    also have "\<dots> \<longleftrightarrow> of_int (2 ^ 53) - 1 / 2 \<le> x * 2 ^ 53"
      by (rule round_half_even_ge_even) simp
    also have "\<dots> \<longleftrightarrow> 1 - 1 / 2 ^ 54 \<le> x"
      by (simp add: field_simps)
    finally show ?thesis .
  next
    case 4
    have x0: "0 < x" using 4 by simp
    define b where "b = binexp x"
    define u where "u = power_int (2::rat) (b - 52)"
    have u0: "0 < u" by (simp add: u_def)
    from binexp_bounds [OF x0] have bb: "power_int 2 b \<le> x" "x < power_int 2 (b + 1)"
      by (simp_all add: b_def)
    have b0: "0 \<le> b"
    proof (rule ccontr)
      assume "\<not> 0 \<le> b"
      then have "b + 1 \<le> 0" by simp
      then have "power_int (2::rat) (b + 1) \<le> power_int 2 0"
        by (intro power_int_increasing) simp_all
      then show False using bb(2) 4 by simp
    qed
    then have e: "max b (- 1022) = b" by simp
    have pw: "power_int (2::rat) b = 2 ^ 52 * u"
    proof -
      have "power_int (2::rat) (52 + (b - 52)) = power_int 2 52 * power_int 2 (b - 52)"
        by (rule power_int_add) simp
      moreover have "52 + (b - 52) = b" by simp
      ultimately have "power_int (2::rat) b = power_int 2 52 * u"
        by (simp only: u_def)
      then show ?thesis by simp
    qed
    have "2 ^ 52 \<le> x / u" using bb(1) u0 unfolding pw by (simp add: le_divide_eq)
    then have "of_int (2 ^ 52) \<le> x / u" by simp
    then have "2 ^ 52 \<le> round_half_even (x / u)" by (rule round_half_even_ge)
    then have "(of_int (2 ^ 52) :: rat) \<le> of_int (round_half_even (x / u))"
      by (simp only: of_int_le_iff)
    then have "2 ^ 52 * u \<le> of_int (round_half_even (x / u)) * u"
      using u0 by (intro mult_right_mono) simp_all
    moreover have "(1::rat) \<le> power_int 2 b"
      using b0 power_int_increasing [of 0 b "2::rat"] by simp
    ultimately have "1 \<le> of_int (round_half_even (x / u)) * u"
      unfolding pw by linarith
    moreover have "round_double x = of_int (round_half_even (x / u)) * u"
      using x0 by (simp add: round_double_pos b_def [symmetric] e u_def [symmetric])
    ultimately have "1 \<le> round_double x" by simp
    moreover have "(1::rat) - 1 / 2 ^ 54 \<le> 1" by simp
    ultimately show ?thesis using 4 by linarith
  qed
qed

subsection \<open>A worker that is never stopped\<close>

lemma candidate_Inl_later:
  assumes "candidate stride c n = Inl e" "n \<le> m"
  shows "candidate stride c m = Inl e"
proof -
  have "candidate stride c (n + (m - n)) = Inl e"
    by (simp only: candidate_add assms(1) sum.case)
  then show ?thesis using assms(2) by simp
qed

lemma candidate_overflow_by:
  assumes "0 \<le> start" "1 \<le> stride" "Suc (nat (2 ^ 1024)) \<le> n"
  shows "candidate stride start n = Inl OverflowError"
proof -
  define n0 where "n0 = nat (2 ^ 1024)"
  have "candidate stride start (Suc n0) = Inl OverflowError"
  proof (cases "candidate stride start n0")
    case (Inl e)
    moreover have "e = OverflowError" by (cases e) simp
    ultimately show ?thesis by simp
  next
    case (Inr x)
    have "start + int n0 * stride \<le> x" using assms(1,2) Inr by (rule candidate_lower)
    moreover have "int n0 * 1 \<le> int n0 * stride" using assms(2) by (intro mult_left_mono) simp_all
    moreover have "int n0 = 2 ^ 1024" by (simp add: n0_def)
    ultimately have "2 ^ 1024 \<le> x" using assms(1) by linarith
    then have "2 ^ 1024 - 2 ^ 970 \<le> x" by simp
    then have "growth x = Inl OverflowError" by (rule growth_overflows)
    then have "advance stride x = Inl OverflowError" by (simp add: advance_def)
    then show ?thesis using Inr by simp
  qed
  then show ?thesis using assms(3) unfolding n0_def by (rule candidate_Inl_later)
qed

lemma worker_loop_unset_outcome:
  "\<forall>ob \<in> set env. \<not> fst ob \<Longrightarrow>
     snd (worker_loop worker_id stride c env) =
       (case candidate stride c (sum_list (map snd env)) of
          Inl e \<Rightarrow> Crashed e
        | Inr c1 \<Rightarrow> Running c1)"
proof (induction env arbitrary: c)
  case Nil
  show ?case by simp
next
  case (Cons ob env)
  obtain is_set k where ob: "ob = (is_set, k)" by (cases ob)
  have unset: "\<not> is_set" using Cons.prems ob by simp
  have rest: "\<forall>ob \<in> set env. \<not> fst ob" using Cons.prems by simp
  have sum: "sum_list (map snd (ob # env)) = k + sum_list (map snd env)" using ob by simp
  show ?case
  proof (cases "slice_loop stride k (c, 0, 0)")
    case (Inl e)
    then have "candidate stride c k = Inl e" by (rule slice_loop_crash)
    then have "candidate stride c (k + sum_list (map snd env)) = Inl e"
      by (simp only: candidate_add sum.case)
    then show ?thesis using ob unset Inl by (simp add: time_slice_def)
  next
    case (Inr res)
    obtain c1 cnt mx where res: "res = (c1, cnt, mx)" by (cases res)
    have "candidate stride c k = Inr c1" using Inr res by (simp add: slice_loop_cursor)
    then have "candidate stride c (k + sum_list (map snd env))
                 = candidate stride c1 (sum_list (map snd env))"
      by (simp only: candidate_add sum.case)
    moreover have "snd (worker_loop worker_id stride c (ob # env))
                     = snd (worker_loop worker_id stride c1 env)"
      using ob unset Inr res by (simp add: time_slice_def split_beta)
    ultimately show ?thesis using Cons.IH [OF rest, of c1] by (simp only: sum)
  qed
qed

lemma worker_never_stopped_crashes:
  assumes "0 \<le> c" "1 \<le> stride" "\<forall>ob \<in> set env. \<not> fst ob"
    and "Suc (nat (2 ^ 1024)) \<le> sum_list (map snd env)"
  shows "snd (worker_loop worker_id stride c env) = Crashed OverflowError"
proof -
  have "candidate stride c (sum_list (map snd env)) = Inl OverflowError"
    using assms(1,2,4) by (rule candidate_overflow_by)
  then show ?thesis by (simp only: worker_loop_unset_outcome [OF assms(3)] sum.case)
qed

lemma growth_overflow_iff:
  assumes "0 \<le> x"
  shows "growth x = Inl OverflowError \<longleftrightarrow> 2 ^ 1024 - 2 ^ 970 \<le> x"
  using growth_overflow_threshold [OF assms] growth_overflows by blast

subsection \<open>The report of a slice that runs to its end\<close>

text \<open>
  When the inner loop runs to its end, a report is put on the queue exactly when the
  number of primes among the candidates tested is not zero; the report carries the
  worker's id, that number and the last prime tested, which is the largest one when
  the stride is at least 1 and the cursor is not negative.
\<close>

lemma completed_slice_report:
  assumes "time_slice worker_id stride k current_num = Inr (current_num1, rep)"
  shows "(rep \<noteq> None \<longleftrightarrow> length (filter is_prime (tested stride k current_num)) \<noteq> 0)
     \<and> (\<forall>r. rep = Some r \<longrightarrow>
          report_id r = worker_id
          \<and> report_count r = int (length (filter is_prime (tested stride k current_num)))
          \<and> 0 < report_count r
          \<and> report_highest r = last (filter is_prime (tested stride k current_num)))
     \<and> map Inr (tested stride k current_num) = map (candidate stride current_num) [0..<k]
     \<and> (1 \<le> stride \<and> 0 \<le> current_num \<longrightarrow>
          sorted_wrt (<) (tested stride k current_num)
          \<and> (\<forall>r. rep = Some r \<longrightarrow>
                report_highest r = Max (set (filter is_prime (tested stride k current_num)))))"
proof -
  define ps where "ps = filter is_prime (tested stride k current_num)"
  from assms obtain cnt mx where
    sl: "slice_loop stride k (current_num, 0, 0) = Inr (current_num1, cnt, mx)"
    and rep: "rep = (if cnt > 0 \<or> mx > 0
                     then Some \<lparr>report_id = worker_id, report_count = cnt, report_highest = mx\<rparr>
                     else None)"
    by (auto simp: time_slice_def split: sum.splits)
  from slice_loop_result [OF sl]
  have cnt: "cnt = int (length ps)" and mx: "mx = (if ps = [] then 0 else last ps)"
    by (simp_all add: ps_def)
  have emit: "rep \<noteq> None \<longleftrightarrow> ps \<noteq> []"
  proof (cases "ps = []")
    case True
    then show ?thesis using rep cnt mx by simp
  next
    case False
    then have "cnt > 0" using cnt by simp
    then show ?thesis using rep False by simp
  qed
  have fields: "report_id r = worker_id \<and> report_count r = int (length ps)
                \<and> 0 < report_count r \<and> report_highest r = last ps"
    if "rep = Some r" for r
  proof -
    have ne: "ps \<noteq> []" using that emit by simp
    then have "r = \<lparr>report_id = worker_id, report_count = cnt, report_highest = mx\<rparr>"
      using that rep cnt by (simp split: if_splits)
    then show ?thesis using cnt mx ne by simp
  qed
  have cand: "map Inr (tested stride k current_num) = map (candidate stride current_num) [0..<k]"
    using slice_loop_cursor [OF sl] by (rule tested_candidates)
  have incr: "sorted_wrt (<) (tested stride k current_num)
              \<and> (\<forall>r. rep = Some r \<longrightarrow> report_highest r = Max (set ps))"
    if "1 \<le> stride \<and> 0 \<le> current_num"
  proof -
    have s: "sorted_wrt (<) (tested stride k current_num)"
      using tested_increasing [of stride current_num k] that by simp
    then have sp: "sorted_wrt (<) ps" unfolding ps_def by (rule sorted_wrt_filter)
    have "report_highest r = Max (set ps)" if "rep = Some r" for r
    proof -
      have "ps \<noteq> []" using that emit by simp
      with sp have "last ps = Max (set ps)" by (rule sorted_last_Max)
      then show ?thesis using fields [OF that] by simp
    qed
    with s show ?thesis by simp
  qed
  show ?thesis
    using emit fields cand incr unfolding ps_def by simp
qed

lemma completed_slice_report_example:
  "time_slice 0 1 20 100
     = Inr (120, Some \<lparr>report_id = 0, report_count = 5, report_highest = 113\<rparr>)
   \<and> (1::int) \<le> 1 \<and> (0::int) \<le> 100
   \<and> length (filter is_prime (tested 1 20 100)) \<noteq> 0
   \<and> 113 = Max (set (filter is_prime (tested 1 20 100)))"
proof -
  have h: "time_slice 0 1 20 100
     = Inr (120, Some \<lparr>report_id = 0, report_count = 5, report_highest = 113\<rparr>)"
    by code_simp
  show ?thesis using h completed_slice_report [OF h] by simp
qed

subsection \<open>How the worker loop ends\<close>

text \<open>
  Run on observations of the stop event that are unset up to the first set one, the
  loop exits there with exactly the reports of the slices before it, and nothing
  after that observation matters. While every observation is unset it does not exit.
  It puts at most one report on the queue per slice.
\<close>

lemma worker_loop_stop_behaviour:
  "((\<forall>ob \<in> set pre. \<not> fst ob) \<longrightarrow>
      worker_loop worker_id stride c (pre @ (True, k) # post) =
        (fst (worker_loop worker_id stride c pre),
         case snd (worker_loop worker_id stride c pre) of Running c1 \<Rightarrow> Exited | out \<Rightarrow> out))
   \<and> ((\<forall>ob \<in> set env. \<not> fst ob) \<longrightarrow> snd (worker_loop worker_id stride c env) \<noteq> Exited)
   \<and> length (fst (worker_loop worker_id stride c env)) \<le> length env"
  using worker_loop_exit [of pre worker_id stride c k post]
    worker_loop_no_exit [of env worker_id stride c]
    worker_loop_sent_length [of worker_id stride c env]
  by blast

lemma worker_loop_stop_example:
  "worker_loop 0 1 100 ([(False, 20), (False, 0)] @ (True, 7) # [(False, 3)])
     = ([\<lparr>report_id = 0, report_count = 5, report_highest = 113\<rparr>], Exited)"
  by code_simp

section \<open>The claims\<close>

text \<open>
  C1. For every integer \<open>n\<close>, \<open>is_prime n\<close> is true exactly when \<open>n\<close> is prime: it is
  false for \<open>n < 2\<close>, true for 2, false for even \<open>n > 2\<close>, and for odd \<open>n > 2\<close> it is
  false exactly when some odd integer from 3 up to and including the floor of the
  square root of \<open>n\<close> divides \<open>n\<close>. The limit \<open>isqrt n\<close> is that floor.
\<close>

theorem is_prime_iff_prime:
  "(is_prime n \<longleftrightarrow> prime_spec n)
   \<and> (n < 2 \<longrightarrow> \<not> is_prime n)
   \<and> is_prime 2
   \<and> (2 < n \<and> even n \<longrightarrow> \<not> is_prime n)
   \<and> (2 < n \<and> odd n \<longrightarrow>
        (is_prime n \<longleftrightarrow> \<not> (\<exists>i. 3 \<le> i \<and> i \<le> isqrt n \<and> odd i \<and> i dvd n)))
   \<and> (0 \<le> n \<longrightarrow> isqrt n * isqrt n \<le> n \<and> n < (isqrt n + 1) * (isqrt n + 1))"
proof (intro conjI impI)
  show "is_prime n \<longleftrightarrow> prime_spec n" by (rule is_prime_correct)
  show "\<not> is_prime n" if "n < 2" using that by (simp add: is_prime_def)
  show "is_prime 2" by (simp add: is_prime_def)
  show "\<not> is_prime n" if "2 < n \<and> even n" using that by (simp add: is_prime_def)
  show "is_prime n \<longleftrightarrow> \<not> (\<exists>i. 3 \<le> i \<and> i \<le> isqrt n \<and> odd i \<and> i dvd n)" if "2 < n \<and> odd n"
  proof -
    have "3 \<le> n" "odd n" using that by simp_all
    then have "prime_spec n \<longleftrightarrow> (\<forall>j. 3 \<le> j \<and> j \<le> isqrt n \<and> odd j \<longrightarrow> \<not> j dvd n)"
      by (rule odd_prime_iff)
    then show ?thesis by (simp only: is_prime_correct) blast
  qed
  show "isqrt n * isqrt n \<le> n" if "0 \<le> n" using isqrt_bounds [OF that] by simp
  show "n < (isqrt n + 1) * (isqrt n + 1)" if "0 \<le> n" using isqrt_bounds [OF that] by simp
qed

theorem is_prime_iff_prime_witness:
  "(1::int) < 2 \<and> \<not> is_prime 1
   \<and> (2::int) < 100 \<and> even (100::int) \<and> \<not> is_prime 100
   \<and> (2::int) < 97 \<and> odd (97::int) \<and> is_prime 97
   \<and> \<not> (\<exists>i. 3 \<le> i \<and> i \<le> isqrt 97 \<and> odd i \<and> i dvd (97::int))
   \<and> (0::int) \<le> 97 \<and> isqrt 97 * isqrt 97 \<le> 97"
proof -
  have p: "is_prime 97" by code_simp
  have h: "(1::int) < 2" "(2::int) < 100 \<and> even (100::int)" "(2::int) < 97 \<and> odd (97::int)"
    "(0::int) \<le> 97" by simp_all
  show ?thesis
    using p h is_prime_iff_prime [of 1] is_prime_iff_prime [of 100] is_prime_iff_prime [of 97]
    by blast
qed


text \<open>
  C3. For every pool size \<open>N \<ge> 1\<close> and every two distinct worker indices \<open>i\<close> and \<open>j\<close>
  in \<open>[0, N)\<close>, no integer of the candidate sequence of worker \<open>i\<close> (from \<open>100 + i\<close>,
  advancing by the stride \<open>N\<close> plus the growth term) is in the candidate sequence of
  worker \<open>j\<close>.
\<close>

theorem trajectories_disjoint:
  assumes "1 \<le> N" "0 \<le> i" "i < N" "0 \<le> j" "j < N" "i \<noteq> j"
    and "candidate N (100 + i) a = Inr x" "candidate N (100 + j) b = Inr y"
  shows "x \<noteq> y"
proof
  assume xy: "x = y"
  show False
  proof (cases "a \<le> b")
    case True
    from assms(1-6) assms(7) assms(8) [folded xy] True show False
      by (rule trajectories_apart)
  next
    case False
    then have "b \<le> a" by simp
    from assms(1) assms(4,5) assms(2,3) assms(6) [symmetric] assms(8) assms(7) [unfolded xy] this
    show False by (rule trajectories_apart)
  qed
qed

theorem trajectories_disjoint_witness:
  "(1::int) \<le> 2 \<and> (0::int) \<le> 0 \<and> (0::int) < 2 \<and> (0::int) \<le> 1 \<and> (1::int) < 2 \<and> (0::int) \<noteq> 1
   \<and> candidate 2 (100 + 0) 3 = Inr 106 \<and> candidate 2 (100 + 1) 2 = Inr 105
   \<and> (106::int) \<noteq> 105"
proof -
  have a: "candidate 2 (100 + 0) 3 = Inr 106" by code_simp
  have b: "candidate 2 (100 + 1) 2 = Inr 105" by code_simp
  have "(106::int) \<noteq> 105"
    using _ _ _ _ _ _ a b by (rule trajectories_disjoint) simp_all
  with a b show ?thesis by simp
qed

text \<open>
  C4, as amended. For every \<open>current_num\<close> with \<open>0 < current_num < 9007199259999999\<close>
  the growth term, computed in double precision as the source does, equals
  \<open>current_num div 20000000\<close>, the floor of \<open>current_num * 0.00000005\<close> in exact
  arithmetic, and the cursor then advances by exactly \<open>stride + growth\<close>. At
  9007199259999999 the two differ: the conversion of the cursor to a double rounds it
  up to 9007199260000000.
\<close>

theorem growth_exact_below_first_failure:
  assumes "0 < current_num" "current_num < 9007199259999999"
  shows "growth current_num = Inr (current_num div 20000000)
         \<and> advance stride current_num = Inr (current_num + (stride + current_num div 20000000))"
proof -
  have "growth current_num = Inr (current_num div 20000000)"
    using assms by (rule growth_exact_range)
  then show ?thesis by (simp add: advance_def)
qed

theorem growth_exact_below_first_failure_witness:
  "(0::int) < 9007199259999998 \<and> (9007199259999998::int) < 9007199259999999
   \<and> growth 9007199259999998 = Inr (9007199259999998 div 20000000)
   \<and> advance 8 9007199259999998 = Inr (9007199259999998 + (8 + 9007199259999998 div 20000000))"
proof -
  have h: "(0::int) < 9007199259999998" "(9007199259999998::int) < 9007199259999999"
    by simp_all
  from growth_exact_below_first_failure [OF h, of 8] h show ?thesis by blast
qed

text \<open>
  C4 as stated, for every positive cursor, fails at 9007199259999999: the source's
  growth term is 450359963 there, the exact floor is 450359962.
\<close>

theorem growth_inexact_counterexample:
  "growth 9007199259999999 = Inr 450359963
   \<and> (9007199259999999::int) div 20000000 = 450359962"
  by code_simp

text \<open>
  C5. Folding a report into the aggregate never decreases \<open>highest\<close>, and after any
  sequence of reports \<open>highest\<close> is the maximum of the value it started from (0 in
  \<^verbatim>\<open>main\<close>) and the \<open>highest\<close> of every report folded in so far. \<open>total\<close> is the
  starting value plus the counts folded in, and never decreases when a report's count
  is not negative, as the count of every report a worker sends is.
\<close>

theorem aggregate_highest_total_monotone:
  "highest st \<le> highest (absorb st r)
   \<and> highest (drain st rs) \<le> highest (drain st (rs @ [r]))
   \<and> highest (drain st rs) = Max (insert (highest st) (report_highest ` set rs))
   \<and> highest (drain (initial_stats core_count) rs) = Max (insert 0 (report_highest ` set rs))
   \<and> total (drain st rs) = total st + sum_list (map report_count rs)
   \<and> (0 \<le> report_count r \<longrightarrow>
        total st \<le> total (absorb st r) \<and> total (drain st rs) \<le> total (drain st (rs @ [r])))"
proof (intro conjI impI)
  show "highest st \<le> highest (absorb st r)" by (simp add: highest_absorb)
  show "highest (drain st rs) \<le> highest (drain st (rs @ [r]))"
    by (simp add: drain_snoc highest_absorb)
  show "highest (drain st rs) = Max (insert (highest st) (report_highest ` set rs))"
    by (rule highest_drain)
  show "highest (drain (initial_stats core_count) rs) = Max (insert 0 (report_highest ` set rs))"
    by (simp add: highest_drain initial_stats_def)
  show "total (drain st rs) = total st + sum_list (map report_count rs)"
    by (rule total_drain)
  show "total st \<le> total (absorb st r)" if "0 \<le> report_count r"
    using that by (simp add: total_absorb)
  show "total (drain st rs) \<le> total (drain st (rs @ [r]))" if "0 \<le> report_count r"
    using that by (simp add: drain_snoc total_absorb)
qed

theorem aggregate_highest_total_monotone_witness:
  "(0::int) \<le> report_count \<lparr>report_id = 1, report_count = 3, report_highest = 107\<rparr>
   \<and> total (drain (initial_stats 4)
         [\<lparr>report_id = 0, report_count = 5, report_highest = 113\<rparr>,
          \<lparr>report_id = 1, report_count = 3, report_highest = 107\<rparr>]) = 8
   \<and> highest (drain (initial_stats 4)
         [\<lparr>report_id = 0, report_count = 5, report_highest = 113\<rparr>,
          \<lparr>report_id = 1, report_count = 3, report_highest = 107\<rparr>]) = 113
   \<and> total (drain (initial_stats 4) [\<lparr>report_id = 0, report_count = 5, report_highest = 113\<rparr>])
      \<le> total (drain (initial_stats 4)
            ([\<lparr>report_id = 0, report_count = 5, report_highest = 113\<rparr>]
             @ [\<lparr>report_id = 1, report_count = 3, report_highest = 107\<rparr>]))"
proof -
  have h: "(0::int) \<le> report_count \<lparr>report_id = 1, report_count = 3, report_highest = 107\<rparr>"
    by simp
  have t: "total (drain (initial_stats 4)
         [\<lparr>report_id = 0, report_count = 5, report_highest = 113\<rparr>,
          \<lparr>report_id = 1, report_count = 3, report_highest = 107\<rparr>]) = 8"
    and m: "highest (drain (initial_stats 4)
         [\<lparr>report_id = 0, report_count = 5, report_highest = 113\<rparr>,
          \<lparr>report_id = 1, report_count = 3, report_highest = 107\<rparr>]) = 113"
    by (simp_all add: drain_def absorb_def initial_stats_def)
  from aggregate_highest_total_monotone
         [of "initial_stats 4" "\<lparr>report_id = 1, report_count = 3, report_highest = 107\<rparr>"
             "[\<lparr>report_id = 0, report_count = 5, report_highest = 113\<rparr>]" 4] h
  have "total (drain (initial_stats 4) [\<lparr>report_id = 0, report_count = 5, report_highest = 113\<rparr>])
      \<le> total (drain (initial_stats 4)
            ([\<lparr>report_id = 0, report_count = 5, report_highest = 113\<rparr>]
             @ [\<lparr>report_id = 1, report_count = 3, report_highest = 107\<rparr>]))"
    by blast
  with h t m show ?thesis by blast
qed

text \<open>
  C6. Two lists of reports with the same multiset of elements, folded into the same
  aggregate state, give the same final \<open>total\<close> and the same final \<open>highest\<close>.
\<close>

theorem drain_order_independent:
  assumes "mset rs = mset rs'"
  shows "total (drain st rs) = total (drain st rs')
         \<and> highest (drain st rs) = highest (drain st rs')"
  using drain_mset [OF assms] by simp

theorem drain_order_independent_witness:
  "mset [\<lparr>report_id = 0, report_count = 5, report_highest = 113\<rparr>,
         \<lparr>report_id = 1, report_count = 3, report_highest = 107\<rparr>]
   = mset [\<lparr>report_id = 1, report_count = 3, report_highest = 107\<rparr>,
           \<lparr>report_id = 0, report_count = 5, report_highest = 113\<rparr>]
   \<and> total (drain (initial_stats 4)
        [\<lparr>report_id = 0, report_count = 5, report_highest = 113\<rparr>,
         \<lparr>report_id = 1, report_count = 3, report_highest = 107\<rparr>])
     = total (drain (initial_stats 4)
        [\<lparr>report_id = 1, report_count = 3, report_highest = 107\<rparr>,
         \<lparr>report_id = 0, report_count = 5, report_highest = 113\<rparr>])
   \<and> highest (drain (initial_stats 4)
        [\<lparr>report_id = 0, report_count = 5, report_highest = 113\<rparr>,
         \<lparr>report_id = 1, report_count = 3, report_highest = 107\<rparr>])
     = highest (drain (initial_stats 4)
        [\<lparr>report_id = 1, report_count = 3, report_highest = 107\<rparr>,
         \<lparr>report_id = 0, report_count = 5, report_highest = 113\<rparr>])"
proof -
  have h: "mset [\<lparr>report_id = 0, report_count = 5, report_highest = 113\<rparr>,
         \<lparr>report_id = 1, report_count = 3, report_highest = 107\<rparr>]
   = mset [\<lparr>report_id = 1, report_count = 3, report_highest = 107\<rparr>,
           \<lparr>report_id = 0, report_count = 5, report_highest = 113\<rparr>]"
    by (simp add: add.commute)
  from h drain_order_independent [OF h, of "initial_stats 4"] show ?thesis by blast
qed

text \<open>
  C7. A tick of the display loop whose clock reading, less the last boundary in
  double precision, is at least 1 sets \<open>speed\<close> to the total after the drain minus
  the total recorded at the previous boundary, records the new total as the baseline
  and the reading as the new boundary. Any other tick leaves \<open>speed\<close>, the baseline
  and the boundary unchanged. The test holds exactly when the exact difference of
  the two readings is at least \<open>1 - 1 / 2 ^ 54\<close> seconds.
\<close>

theorem speed_recomputed_at_boundary:
  "(float_sub now (last_check_time ag) \<ge> 1 \<longrightarrow>
      speed (agg_stats (tick ag queue now))
        = total (drain (agg_stats ag) queue) - last_total_primes ag
      \<and> last_total_primes (tick ag queue now) = total (drain (agg_stats ag) queue)
      \<and> last_check_time (tick ag queue now) = now)
   \<and> (float_sub now (last_check_time ag) < 1 \<longrightarrow>
      speed (agg_stats (tick ag queue now)) = speed (agg_stats ag)
      \<and> last_total_primes (tick ag queue now) = last_total_primes ag
      \<and> last_check_time (tick ag queue now) = last_check_time ag)
   \<and> (float_sub now (last_check_time ag) \<ge> 1
        \<longleftrightarrow> now - last_check_time ag \<ge> 1 - 1 / 2 ^ 54)
   \<and> total (agg_stats (tick ag queue now)) = total (drain (agg_stats ag) queue)
   \<and> highest (agg_stats (tick ag queue now)) = highest (drain (agg_stats ag) queue)"
proof -
  have sp: "speed (drain st rs) = speed st" for st rs
    unfolding drain_def
    by (induction rs arbitrary: st) (simp_all add: absorb_def Let_def)
  have ch: "float_sub now (last_check_time ag) \<ge> 1
        \<longleftrightarrow> now - last_check_time ag \<ge> 1 - 1 / 2 ^ 54"
    unfolding float_sub_def by (rule round_double_ge_one)
  have rest: "(float_sub now (last_check_time ag) \<ge> 1 \<longrightarrow>
      speed (agg_stats (tick ag queue now))
        = total (drain (agg_stats ag) queue) - last_total_primes ag
      \<and> last_total_primes (tick ag queue now) = total (drain (agg_stats ag) queue)
      \<and> last_check_time (tick ag queue now) = now)
   \<and> (float_sub now (last_check_time ag) < 1 \<longrightarrow>
      speed (agg_stats (tick ag queue now)) = speed (agg_stats ag)
      \<and> last_total_primes (tick ag queue now) = last_total_primes ag
      \<and> last_check_time (tick ag queue now) = last_check_time ag)
   \<and> total (agg_stats (tick ag queue now)) = total (drain (agg_stats ag) queue)
   \<and> highest (agg_stats (tick ag queue now)) = highest (drain (agg_stats ag) queue)"
    by (simp add: tick_def update_velocity_def sp)
  from rest ch show ?thesis by blast
qed

theorem speed_recomputed_at_boundary_witness:
  "float_sub 1 (last_check_time (initial_aggregator 4 (1 / 2 ^ 60))) \<ge> 1
   \<and> speed (agg_stats (tick (initial_aggregator 4 (1 / 2 ^ 60))
        [\<lparr>report_id = 0, report_count = 5, report_highest = 113\<rparr>] 1)) = 5
   \<and> float_sub (1 / 8) (last_check_time (initial_aggregator 4 0)) < 1
   \<and> speed (agg_stats (tick (initial_aggregator 4 0)
        [\<lparr>report_id = 0, report_count = 5, report_highest = 113\<rparr>] (1 / 8))) = 0"
proof -
  have h1: "float_sub 1 (last_check_time (initial_aggregator 4 (1 / 2 ^ 60))) \<ge> 1"
    by code_simp
  have h2: "float_sub (1 / 8) (last_check_time (initial_aggregator 4 0)) < 1"
    by code_simp
  have t: "total (drain (agg_stats (initial_aggregator 4 (1 / 2 ^ 60)))
             [\<lparr>report_id = 0, report_count = 5, report_highest = 113\<rparr>])
           - last_total_primes (initial_aggregator 4 (1 / 2 ^ 60)) = 5"
    and s: "speed (agg_stats (initial_aggregator 4 0)) = 0"
    by (simp_all add: initial_aggregator_def initial_stats_def drain_def absorb_def)
  from speed_recomputed_at_boundary
         [of 1 "initial_aggregator 4 (1 / 2 ^ 60)"
             "[\<lparr>report_id = 0, report_count = 5, report_highest = 113\<rparr>]"]
       h1 t
  have a: "speed (agg_stats (tick (initial_aggregator 4 (1 / 2 ^ 60))
        [\<lparr>report_id = 0, report_count = 5, report_highest = 113\<rparr>] 1)) = 5"
    by simp
  from speed_recomputed_at_boundary
         [of "1 / 8" "initial_aggregator 4 0"
             "[\<lparr>report_id = 0, report_count = 5, report_highest = 113\<rparr>]"]
       h2 s
  have b: "speed (agg_stats (tick (initial_aggregator 4 0)
        [\<lparr>report_id = 0, report_count = 5, report_highest = 113\<rparr>] (1 / 8))) = 0"
    by simp
  from h1 a h2 b show ?thesis by blast
qed

text \<open>
  C8. For every starting cursor of at least 1 and every stride of at least 1, the
  candidate sequence is strictly increasing. It is determined by the cursor and the
  stride alone: the cursor a slice leaves is the candidate at the slice's number of
  iterations, whatever the counters and the primality of the candidates, and the
  sequence continued from a cursor it has reached is the rest of the same sequence.
\<close>

theorem candidate_sequence_increasing:
  "(1 \<le> start \<and> 1 \<le> stride \<and> m < n
      \<and> candidate stride start m = Inr x \<and> candidate stride start n = Inr y \<longrightarrow> x < y)
   \<and> (slice_loop stride k (start, cnt, mx) = Inr (cur1, cnt1, mx1) \<longrightarrow>
        candidate stride start k = Inr cur1)
   \<and> candidate stride start (k + n)
       = (case candidate stride start k of Inl e \<Rightarrow> Inl e | Inr c \<Rightarrow> candidate stride c n)"
proof (intro conjI impI)
  assume h: "1 \<le> start \<and> 1 \<le> stride \<and> m < n
      \<and> candidate stride start m = Inr x \<and> candidate stride start n = Inr y"
  then have "0 \<le> start" by simp
  from this h show "x < y" by (blast intro: candidate_increasing)
next
  assume "slice_loop stride k (start, cnt, mx) = Inr (cur1, cnt1, mx1)"
  then show "candidate stride start k = Inr cur1" by (rule slice_loop_cursor)
next
  show "candidate stride start (k + n)
       = (case candidate stride start k of Inl e \<Rightarrow> Inl e | Inr c \<Rightarrow> candidate stride c n)"
    by (rule candidate_add)
qed

theorem candidate_sequence_increasing_witness:
  "(1::int) \<le> 39999990 \<and> (1::int) \<le> 8 \<and> (0::nat) < 3
   \<and> candidate 8 39999990 0 = Inr 39999990 \<and> candidate 8 39999990 3 = Inr 40000018
   \<and> (39999990::int) < 40000018
   \<and> slice_loop 8 3 (39999990, 0, 0) = Inr (40000018, 0, 0)"
proof -
  have a: "candidate 8 39999990 0 = Inr 39999990" by simp
  have b: "candidate 8 39999990 3 = Inr 40000018" by code_simp
  have c: "slice_loop 8 3 (39999990, 0, 0) = Inr (40000018, 0, 0)" by code_simp
  have "(39999990::int) < 40000018"
    using candidate_sequence_increasing [of 39999990 8 0 3 39999990 40000018] a b by simp
  with a b c show ?thesis by simp
qed

text \<open>
  C9. The worker loop's only exit is to observe the stop event at a slice boundary,
  and it never exits while the event is unset. The source breaks this: worker 0 of a
  pool of one, whose stop event is never set, ends with \<^verbatim>\<open>OverflowError\<close> once it has
  run \<open>2 ^ 1024 + 1\<close> iterations, in one slice or in slices of 1000 iterations each.
\<close>

theorem worker_ends_unstopped:
  "worker_process 0 1 [(False, Suc (nat (2 ^ 1024)))] = ([], Crashed OverflowError)
   \<and> snd (worker_process 0 1 (replicate (Suc (nat (2 ^ 1024))) (False, 1000)))
       = Crashed OverflowError"
proof -
  have "candidate 1 (100 + 0) (Suc (nat (2 ^ 1024))) = Inl OverflowError"
    by (rule candidate_overflow_by) simp_all
  then have "slice_loop 1 (Suc (nat (2 ^ 1024))) (100 + 0, 0, 0) = Inl OverflowError"
    by (rule slice_loop_crash_conv)
  then have a: "worker_process 0 1 [(False, Suc (nat (2 ^ 1024)))] = ([], Crashed OverflowError)"
    by (simp add: worker_process_def time_slice_def)
  define n where "n = Suc (nat (2 ^ 1024))"
  have "sum_list (map snd (replicate n (False, 1000::nat))) = n * 1000"
    by (simp add: sum_list_replicate)
  then have "n \<le> sum_list (map snd (replicate n (False, 1000::nat)))" by simp
  moreover have "\<forall>ob \<in> set (replicate n (False, 1000::nat)). \<not> fst ob" by simp
  ultimately have "snd (worker_loop 0 1 (100 + 0) (replicate n (False, 1000))) = Crashed OverflowError"
    unfolding n_def by (intro worker_never_stopped_crashes) simp_all
  then have b: "snd (worker_process 0 1 (replicate (Suc (nat (2 ^ 1024))) (False, 1000)))
       = Crashed OverflowError"
    by (simp only: worker_process_def n_def)
  from a b show ?thesis by blast
qed

text \<open>
  C10. For every \<open>current_num\<close> with \<open>0 < current_num < 20000000\<close> the growth term is
  exactly 0, the cursor advances by the stride alone and keeps its residue modulo the
  stride; as long as every earlier candidate is below 20000000 the \<open>n\<close>-th candidate
  is the start plus \<open>n\<close> strides. At 20000000 the growth term is 1, and a step from
  there changes the residue.
\<close>

theorem growth_zero_below_20000000:
  "(0 < current_num \<and> current_num < 20000000 \<longrightarrow>
      growth current_num = Inr 0
      \<and> advance stride current_num = Inr (current_num + stride)
      \<and> (current_num + stride) mod stride = current_num mod stride)
   \<and> (0 < start \<and> 0 \<le> stride \<and> (\<forall>m<n. start + int m * stride < 20000000) \<longrightarrow>
      candidate stride start n = Inr (start + int n * stride)
      \<and> (start + int n * stride) mod stride = start mod stride)
   \<and> growth 20000000 = Inr 1
   \<and> advance 2 20000000 = Inr 20000003"
proof (intro conjI impI)
  assume h: "0 < current_num \<and> current_num < 20000000"
  then have "current_num < 2 ^ 53" by simp
  with h have "growth current_num = Inr (current_num div 20000000)"
    by (simp only: growth_exact)
  then show g: "growth current_num = Inr 0" using h by simp
  then show "advance stride current_num = Inr (current_num + stride)"
    by (simp add: advance_def)
  show "(current_num + stride) mod stride = current_num mod stride" by simp
next
  assume h: "0 < start \<and> 0 \<le> stride \<and> (\<forall>m<n. start + int m * stride < 20000000)"
  then have "0 < start" "0 \<le> stride" "\<forall>m<n. start + int m * stride < 20000000"
    by simp_all
  then show "candidate stride start n = Inr (start + int n * stride)"
    by (rule candidate_closed_form)
  show "(start + int n * stride) mod stride = start mod stride" by simp
next
  show "growth 20000000 = Inr 1" by code_simp
  show "advance 2 20000000 = Inr 20000003" by code_simp
qed

theorem growth_zero_below_20000000_witness:
  "(0::int) < 19999999 \<and> (19999999::int) < 20000000
   \<and> growth 19999999 = Inr 0 \<and> advance 8 19999999 = Inr (19999999 + 8)
   \<and> (0::int) < 100 \<and> (0::int) \<le> 8 \<and> 100 + int 2 * 8 < 20000000
   \<and> candidate 8 100 3 = Inr (100 + int 3 * 8)"
proof -
  have h1: "(0::int) < 19999999 \<and> (19999999::int) < 20000000" by simp
  have h2: "(0::int) < 100 \<and> (0::int) \<le> 8 \<and> (\<forall>m<3. 100 + int m * 8 < 20000000)" by simp
  from growth_zero_below_20000000 [of 19999999 8 100 3] h1
  have a: "growth 19999999 = Inr 0 \<and> advance 8 19999999 = Inr (19999999 + 8)" by blast
  from growth_zero_below_20000000 [of 19999999 8 100 3] h2
  have b: "candidate 8 100 3 = Inr (100 + int 3 * 8)" by blast
  from h1 h2 a b show ?thesis by simp
qed


end
